theory Spec2Isabelle
  imports Main "HOL-Library.Sublist"
begin

section \<open>JavaScript strings\<close>

text \<open>
  A JavaScript string is a sequence of UTF-16 code units; a code unit is modelled as a
  natural number. \<open>js\<close> turns an ASCII literal into its code units.
\<close>

type_synonym jsstring = "nat list"

definition js :: "string \<Rightarrow> jsstring" where
  "js s = map of_char s"

text \<open>\<^verbatim>\<open>String.prototype.includes\<close>: \<open>js_includes s sub\<close> is \<^verbatim>\<open>s.includes(sub)\<close>.\<close>

fun js_includes :: "jsstring \<Rightarrow> jsstring \<Rightarrow> bool" where
  "js_includes [] sub = (sub = [])"
| "js_includes (x # xs) sub = (prefix sub (x # xs) \<or> js_includes xs sub)"

text \<open>
  \<^verbatim>\<open>String.prototype.toLowerCase\<close> on ASCII text (the addresses handled here are
  \<^verbatim>\<open>0x\<close> followed by hexadecimal digits): \<^verbatim>\<open>A\<close>..\<^verbatim>\<open>Z\<close> become \<^verbatim>\<open>a\<close>..\<^verbatim>\<open>z\<close>, every other
  ASCII code unit is unchanged.
\<close>

definition lower_unit :: "nat \<Rightarrow> nat" where
  "lower_unit c = (if 65 \<le> c \<and> c \<le> 90 then c + 32 else c)"

definition toLowerCase :: "jsstring \<Rightarrow> jsstring" where
  "toLowerCase s = map lower_unit s"

section \<open>Regular expressions\<close>

text \<open>
  The character classes the regular expressions of the operator use:
  \<^verbatim>\<open>\s\<close>, \<^verbatim>\<open>\w\<close>, \<^verbatim>\<open>\d\<close>, a negated single character (\<^verbatim>\<open>[^"]\<close>, \<^verbatim>\<open>[^\/]\<close>) and \<^verbatim>\<open>.\<close>
  (every code unit but the line terminators).
\<close>

datatype cls = Space | Word | Digit | NotChr nat | Dot

fun in_cls :: "cls \<Rightarrow> nat \<Rightarrow> bool" where
  "in_cls Space c =
     (c = 9 \<or> c = 10 \<or> c = 11 \<or> c = 12 \<or> c = 13 \<or> c = 32 \<or> c = 160 \<or> c = 5760
      \<or> (8192 \<le> c \<and> c \<le> 8202) \<or> c = 8232 \<or> c = 8233 \<or> c = 8239 \<or> c = 8287
      \<or> c = 12288 \<or> c = 65279)"
| "in_cls Word c =
     ((48 \<le> c \<and> c \<le> 57) \<or> (65 \<le> c \<and> c \<le> 90) \<or> c = 95 \<or> (97 \<le> c \<and> c \<le> 122))"
| "in_cls Digit c = (48 \<le> c \<and> c \<le> 57)"
| "in_cls (NotChr d) c = (c \<noteq> d)"
| "in_cls Dot c = (c \<noteq> 10 \<and> c \<noteq> 13 \<and> c \<noteq> 8232 \<and> c \<noteq> 8233)"

text \<open>
  A pattern is a sequence of items: a literal code unit, a class under a greedy \<^verbatim>\<open>*\<close>
  or \<^verbatim>\<open>+\<close> or a lazy \<^verbatim>\<open>*?\<close>, and the two parentheses of a capture group (groups are
  not nested in any pattern of the operator).
\<close>

datatype item = Chr nat | Star cls | Plus cls | LazyStar cls | Open | Close

text \<open>
  The state of a match attempt: the groups closed so far, and the text of the group
  being captured, if one is open.
\<close>

type_synonym captures = "jsstring list \<times> jsstring option"

fun consume :: "nat \<Rightarrow> captures \<Rightarrow> captures" where
  "consume x (gs, None) = (gs, None)"
| "consume x (gs, Some a) = (gs, Some (a @ [x]))"

fun open_group :: "captures \<Rightarrow> captures" where
  "open_group (gs, cur) = (gs, Some [])"

fun close_group :: "captures \<Rightarrow> captures" where
  "close_group (gs, None) = (gs, None)"
| "close_group (gs, Some a) = (gs @ [a], None)"

text \<open>
  The backtracking matcher, anchored at the head of the input: the groups and the
  input left after the match, or \<open>None\<close>. A greedy quantifier tries the longer
  repetition first and falls back to the shorter one, a lazy one the other way round.
\<close>

fun match_here :: "item list \<Rightarrow> jsstring \<Rightarrow> captures \<Rightarrow> (jsstring list \<times> jsstring) option" where
  "match_here [] s st = Some (fst st, s)"
| "match_here (Open # r) s st = match_here r s (open_group st)"
| "match_here (Close # r) s st = match_here r s (close_group st)"
| "match_here (Chr c # r) [] st = None"
| "match_here (Chr c # r) (x # xs) st =
     (if x = c then match_here r xs (consume x st) else None)"
| "match_here (Star k # r) [] st = match_here r [] st"
| "match_here (Star k # r) (x # xs) st =
     (if in_cls k x
      then (case match_here (Star k # r) xs (consume x st) of
              Some res \<Rightarrow> Some res
            | None \<Rightarrow> match_here r (x # xs) st)
      else match_here r (x # xs) st)"
| "match_here (Plus k # r) [] st = None"
| "match_here (Plus k # r) (x # xs) st =
     (if in_cls k x then match_here (Star k # r) xs (consume x st) else None)"
| "match_here (LazyStar k # r) [] st = match_here r [] st"
| "match_here (LazyStar k # r) (x # xs) st =
     (case match_here r (x # xs) st of
        Some res \<Rightarrow> Some res
      | None \<Rightarrow> (if in_cls k x then match_here (LazyStar k # r) xs (consume x st) else None))"

text \<open>
  The search of \<^verbatim>\<open>String.prototype.match\<close> with a regular expression without the
  \<^verbatim>\<open>g\<close> flag: the match at the leftmost position where one exists (the end of the
  string is a position too). \<open>js_search\<close> gives the groups of the match and the input
  after it, \<open>js_match\<close> the groups alone, as the match array holds them.
\<close>

fun js_search :: "item list \<Rightarrow> jsstring \<Rightarrow> (jsstring list \<times> jsstring) option" where
  "js_search rx [] = match_here rx [] ([], None)"
| "js_search rx (x # xs) =
     (case match_here rx (x # xs) ([], None) of
        Some res \<Rightarrow> Some res
      | None \<Rightarrow> js_search rx xs)"

definition js_match :: "item list \<Rightarrow> jsstring \<Rightarrow> jsstring list option" where
  "js_match rx s = map_option fst (js_search rx s)"

text \<open>
  \<^verbatim>\<open>[...s.matchAll(rx)]\<close> with the \<^verbatim>\<open>g\<close> flag: the matches from left to right, each
  search starting where the last match ended, one code unit further after an empty match.
\<close>

function matchAll :: "item list \<Rightarrow> jsstring \<Rightarrow> jsstring list list" where
  "matchAll rx [] =
     (case match_here rx [] ([], None) of Some (gs, rest) \<Rightarrow> [gs] | None \<Rightarrow> [])"
| "matchAll rx (x # xs) =
     (case match_here rx (x # xs) ([], None) of
        Some (gs, rest) \<Rightarrow>
          gs # (if length rest < Suc (length xs) then matchAll rx rest else matchAll rx xs)
      | None \<Rightarrow> matchAll rx xs)"
  by pat_completeness auto
termination
  by (relation "measure (\<lambda>(rx, s). length s)") auto

text \<open>
  \<^verbatim>\<open>s.replace(rx, rep)\<close> with the \<^verbatim>\<open>g\<close> flag and a replacement text without \<^verbatim>\<open>$\<close>:
  every match, found as \<open>matchAll\<close> finds them, is replaced by \<open>rep\<close>.
\<close>

function js_replace_all :: "item list \<Rightarrow> jsstring \<Rightarrow> jsstring \<Rightarrow> jsstring" where
  "js_replace_all rx rep [] =
     (case match_here rx [] ([], None) of Some (gs, rest) \<Rightarrow> rep | None \<Rightarrow> [])"
| "js_replace_all rx rep (x # xs) =
     (case match_here rx (x # xs) ([], None) of
        Some (gs, rest) \<Rightarrow>
          (if length rest < Suc (length xs) then rep @ js_replace_all rx rep rest
           else rep @ x # js_replace_all rx rep xs)
      | None \<Rightarrow> x # js_replace_all rx rep xs)"
  by pat_completeness auto
termination
  by (relation "measure (\<lambda>(rx, rep, s). length s)") auto

text \<open>Pattern text: \<open>lit\<close> is a run of literal characters, \<open>quoted\<close> one between double quotes.\<close>

definition lit :: "string \<Rightarrow> item list" where
  "lit s = map Chr (js s)"

definition quoted :: "string \<Rightarrow> item list" where
  "quoted s = Chr 34 # lit s @ [Chr 34]"

text \<open>
  \<^verbatim>\<open>m[n]\<close> of a match \<^verbatim>\<open>m\<close> for \<open>n \<ge> 1\<close>: the \<open>n\<close>-th group, \<open>None\<close> for \<^verbatim>\<open>undefined\<close>.
\<close>

fun group :: "nat \<Rightarrow> jsstring list \<Rightarrow> jsstring option" where
  "group n [] = None"
| "group n (g # gs) = (if n \<le> 1 then Some g else group (n - 1) gs)"

section \<open>JSON values\<close>

text \<open>
  A JSON value as \<^verbatim>\<open>JSON.parse\<close> and axios deliver it. An object is the list of its
  properties in enumeration order; a number is carried as the decimal text
  \<^verbatim>\<open>JSON.stringify\<close> writes for it.
\<close>

datatype json = JNull | JBool bool | JNumber jsstring | JString jsstring
  | JArray "json list" | JObject "(jsstring \<times> json) list"

text \<open>The escapes of \<^verbatim>\<open>JSON.stringify\<close> (QuoteJSONString, ECMAScript 2019).\<close>

definition hex_digit :: "nat \<Rightarrow> nat" where
  "hex_digit d = (if d < 10 then 48 + d else 87 + d)"

definition unicode_escape :: "nat \<Rightarrow> jsstring" where
  "unicode_escape c =
     [92, 117, hex_digit (c div 4096 mod 16), hex_digit (c div 256 mod 16),
      hex_digit (c div 16 mod 16), hex_digit (c mod 16)]"

definition is_lead :: "nat \<Rightarrow> bool" where
  "is_lead c = (55296 \<le> c \<and> c \<le> 56319)"

definition is_trail :: "nat \<Rightarrow> bool" where
  "is_trail c = (56320 \<le> c \<and> c \<le> 57343)"

definition escape_unit :: "nat \<Rightarrow> jsstring" where
  "escape_unit c =
     (if c = 8 then [92, 98] else if c = 9 then [92, 116] else if c = 10 then [92, 110]
      else if c = 12 then [92, 102] else if c = 13 then [92, 114]
      else if c = 34 then [92, 34] else if c = 92 then [92, 92]
      else if c < 32 \<or> is_lead c \<or> is_trail c then unicode_escape c
      else [c])"

fun quote_units :: "jsstring \<Rightarrow> jsstring" where
  "quote_units [] = []"
| "quote_units [c] = escape_unit c"
| "quote_units (c # d # r) =
     (if is_lead c \<and> is_trail d then c # d # quote_units r
      else escape_unit c @ quote_units (d # r))"

definition quoteJSON :: "jsstring \<Rightarrow> jsstring" where
  "quoteJSON s = 34 # quote_units s @ [34]"

fun commas :: "jsstring list \<Rightarrow> jsstring" where
  "commas [] = []"
| "commas [x] = x"
| "commas (x # y # r) = x @ 44 # commas (y # r)"

fun JSON_stringify :: "json \<Rightarrow> jsstring" where
  "JSON_stringify JNull = js ''null''"
| "JSON_stringify (JBool b) = (if b then js ''true'' else js ''false'')"
| "JSON_stringify (JNumber r) = r"
| "JSON_stringify (JString s) = quoteJSON s"
| "JSON_stringify (JArray vs) = 91 # commas (map JSON_stringify vs) @ [93]"
| "JSON_stringify (JObject kvs) =
     123 # commas (map (\<lambda>(k, v). quoteJSON k @ 58 # JSON_stringify v) kvs) @ [125]"

text \<open>A property read \<^verbatim>\<open>v.k\<close> (\<open>None\<close> is \<^verbatim>\<open>undefined\<close>) and the test \<^verbatim>\<open>!v\<close>.\<close>

fun get_prop :: "json \<Rightarrow> jsstring \<Rightarrow> json option" where
  "get_prop (JObject kvs) k = map_of kvs k"
| "get_prop v k = None"

fun falsy :: "json option \<Rightarrow> bool" where
  "falsy None = True"
| "falsy (Some JNull) = True"
| "falsy (Some (JBool b)) = (\<not> b)"
| "falsy (Some (JNumber r)) = (r = js ''0'')"
| "falsy (Some (JString s)) = (s = [])"
| "falsy (Some v) = False"

section \<open>Errors, tasks and the outside world\<close>

text \<open>A JavaScript \<^verbatim>\<open>Error\<close> with its \<^verbatim>\<open>message\<close>; a function that throws returns \<open>Inl\<close>.\<close>

datatype error = Error jsstring

fun message :: "error \<Rightarrow> jsstring" where
  "message (Error m) = m"

text \<open>The constants of \<^verbatim>\<open>operator.constants.js\<close>.\<close>

definition PENDING :: nat where
  "PENDING = 0"

definition ASSIGNED :: nat where
  "ASSIGNED = 1"

definition VALIDATED :: nat where
  "VALIDATED = 2"

definition TASK_DETAILS :: nat where
  "TASK_DETAILS = 10000"

definition TASK_ALREADY_ASSIGNED :: "jsstring list" where
  "TASK_ALREADY_ASSIGNED = [js ''TaskAlreadyAssigned'', js ''0x48780f5a'', js ''0x27e1f1e5'']"

text \<open>The tuple \<^verbatim>\<open>getTask\<close> returns and the tuple \<^verbatim>\<open>claims\<close> returns, as the ABIs declare them.\<close>

record task =
  task_taskId :: nat
  issueId :: nat
  claimIndex :: nat
  prLink :: jsstring
  developer :: jsstring
  createdAt :: nat
  status :: nat
  assignedOperator :: jsstring
  task_zkProof :: jsstring

record claim =
  claim_prLink :: jsstring
  claim_isMerged :: bool
  claim_developer :: jsstring
  claim_isValidated :: bool
  claim_timestamp :: nat
  accessToken :: jsstring

text \<open>
  A pending promise is described by what will happen to it: it settles \<open>t\<close> milliseconds
  after its creation, fulfilled (\<open>Inr\<close>) or rejected (\<open>Inl\<close>), or it never settles.
  \<open>Promise_race\<close> is \<^verbatim>\<open>Promise.race([p, q])\<close>: it settles as the first of the two to
  settle does (as \<open>p\<close>, the first of the array, if both settle at the same instant).
  \<open>await\<close> returns what a promise settles to, and nothing for one that never settles.
\<close>

datatype 'a promise = Settles nat "error + 'a" | Never

fun Promise_race :: "'a promise \<Rightarrow> 'a promise \<Rightarrow> 'a promise" where
  "Promise_race Never q = q"
| "Promise_race (Settles t r) Never = Settles t r"
| "Promise_race (Settles t r) (Settles u r') = (if t \<le> u then Settles t r else Settles u r')"

fun await :: "'a promise \<Rightarrow> (error + 'a) option" where
  "await (Settles t r) = Some r"
| "await Never = None"

text \<open>
  The calls the operator makes to the outside: the AVS contract, the IssuesClaim contract,
  the proof service and the GitHub API (the last one only in \<^verbatim>\<open>fallbackVerification\<close>).
\<close>

datatype request =
    CallGetTask nat
  | CallPickTask nat
  | CallSubmitValidation nat bool jsstring
  | CallGetOperatorTasks jsstring
  | CallClaims nat nat
  | CallGenerateProof jsstring jsstring
  | CallGithubPulls jsstring jsstring jsstring

text \<open>
  The outside world is a state \<open>'w\<close> and what it answers to each call; every answer may
  change the state. Each awaited call settles, except the contract read behind
  \<^verbatim>\<open>getTask\<close>, which is a promise that may never settle.
\<close>

record 'w outside =
  avs_getTask :: "nat \<Rightarrow> 'w \<Rightarrow> task promise \<times> 'w"
  avs_pickTask :: "nat \<Rightarrow> 'w \<Rightarrow> (error + unit) \<times> 'w"
  avs_submitValidation :: "nat \<Rightarrow> bool \<Rightarrow> jsstring \<Rightarrow> 'w \<Rightarrow> (error + jsstring) \<times> 'w"
  avs_getOperatorTasks :: "jsstring \<Rightarrow> 'w \<Rightarrow> (error + nat list) \<times> 'w"
  issuesClaim_claims :: "nat \<Rightarrow> nat \<Rightarrow> 'w \<Rightarrow> (error + claim) \<times> 'w"
  zktls_generate_proof :: "jsstring \<Rightarrow> jsstring \<Rightarrow> 'w \<Rightarrow> (error + json) \<times> 'w"
  github_pulls :: "jsstring \<Rightarrow> jsstring \<Rightarrow> jsstring \<Rightarrow> 'w \<Rightarrow> (error + json) \<times> 'w"
  Date_now :: "'w \<Rightarrow> jsstring"

text \<open>
  The library functions the validator calls: \<^verbatim>\<open>JSON.parse\<close> (\<open>None\<close> when it throws),
  \<^verbatim>\<open>ethers.utils.hexlify(ethers.utils.toUtf8Bytes(s))\<close> (which may throw) and the
  environment variable \<^verbatim>\<open>ZKTLS_ACCESS_TOKEN\<close> (empty when unset).
\<close>

record runtime =
  JSON_parse :: "jsstring \<Rightarrow> json option"
  hexlify_utf8 :: "jsstring \<Rightarrow> error + jsstring"
  ZKTLS_ACCESS_TOKEN :: jsstring

text \<open>
  The state of the operator process: the guard set \<^verbatim>\<open>processingTasks\<close> (it holds
  \<^verbatim>\<open>taskId.toString()\<close>, the decimal text of the id, which stands for the id one to one),
  the outside world, and the calls made so far, oldest first.
\<close>

record 'w state =
  processingTasks :: "nat set"
  world :: 'w
  calls :: "request list"

definition call :: "request \<Rightarrow> ('w \<Rightarrow> 'a \<times> 'w) \<Rightarrow> 'w state \<Rightarrow> 'a \<times> 'w state" where
  "call rq f s = (case f (world s) of (r, w) \<Rightarrow> (r, s\<lparr>world := w, calls := calls s @ [rq]\<rparr>))"

section \<open>The validator (operator.validator.js)\<close>

text \<open>The regular expressions of the validator, item by item.\<close>

definition prLinkRegex :: "item list" where
  "prLinkRegex =
     lit ''github.com/'' @ [Open, Plus (NotChr 47), Close, Chr 47, Open, Plus (NotChr 47), Close]
     @ lit ''/pull/'' @ [Open, Plus Digit, Close]"

definition contextRegex :: "item list" where
  "contextRegex =
     quoted ''context''
     @ [Chr 58, Star Space, Chr 34, Open, Chr 123, LazyStar Dot, Chr 125, Close, Chr 34]"

definition escapedQuoteRegex :: "item list" where
  "escapedQuoteRegex = [Chr 92, Chr 34]"

definition mergedRegex :: "item list" where
  "mergedRegex =
     quoted ''merged'' @ [Star Space, Chr 58, Star Space, Chr 34, Open, Plus Word, Close, Chr 34]"

definition loginRegex :: "item list" where
  "loginRegex =
     quoted ''login''
     @ [Star Space, Chr 58, Star Space, Chr 34, Open, Plus (NotChr 34), Close, Chr 34]"

definition idRegex :: "item list" where
  "idRegex =
     quoted ''id'' @ [Star Space, Chr 58, Star Space, Chr 34, Open, Plus Digit, Close, Chr 34]"

definition validatePRLink :: "jsstring \<Rightarrow> error + jsstring list" where
  "validatePRLink link =
     (case js_match prLinkRegex link of
        None \<Rightarrow> Inl (Error (js ''Invalid GitHub PR link''))
      | Some m \<Rightarrow> Inr m)"

text \<open>
  \<^verbatim>\<open>_callZKTLSAPI\<close>: the request, then the two proof subjects of the response body.
  Destructuring \<^verbatim>\<open>null\<close> throws a TypeError (its text is the engine's).
\<close>

definition callZKTLSAPI ::
  "runtime \<Rightarrow> 'w outside \<Rightarrow> jsstring \<Rightarrow> jsstring \<Rightarrow> 'w state \<Rightarrow> (error + json \<times> json) \<times> 'w state" where
  "callZKTLSAPI rt out link token s =
     (let bearer = (if token \<noteq> [] then token else ZKTLS_ACCESS_TOKEN rt) in
      case call (CallGenerateProof link bearer) (zktls_generate_proof out link bearer) s of
        (Inl e, s') \<Rightarrow> (Inl e, s')
      | (Inr JNull, s') \<Rightarrow> (Inl (Error (js ''Cannot destructure property of null'')), s')
      | (Inr data, s') \<Rightarrow>
          (case (get_prop data (js ''prProofData''), get_prop data (js ''userProofData'')) of
             (Some prProofData, Some userProofData) \<Rightarrow>
               (if falsy (Some prProofData) \<or> falsy (Some userProofData)
                then (Inl (Error (js ''Invalid response format from zkTLS API'')), s')
                else (Inr (prProofData, userProofData), s'))
           | _ \<Rightarrow> (Inl (Error (js ''Invalid response format from zkTLS API'')), s')))"

text \<open>
  \<^verbatim>\<open>_parseJSONSafely\<close>; the argument is \<^verbatim>\<open>matches[i][1]\<close>, and \<^verbatim>\<open>undefined.replace\<close> would
  throw inside the \<^verbatim>\<open>try\<close> like a parse error does.
\<close>

definition parseJSONSafely :: "runtime \<Rightarrow> jsstring option \<Rightarrow> json" where
  "parseJSONSafely rt jsonString =
     (case jsonString of
        None \<Rightarrow> JObject []
      | Some str \<Rightarrow>
          (let cleanedString = js_replace_all escapedQuoteRegex [34] str in
           case JSON_parse rt cleanedString of
             Some v \<Rightarrow> v
           | None \<Rightarrow> JObject []))"

record verdict =
  isMerged :: bool
  isValidUser :: bool
  isValidId :: bool
  githubUsername :: "jsstring option"
  githubUserId :: "jsstring option"
  userLogin :: "jsstring option"
  userId :: "jsstring option"
  isValid :: bool

definition verifyProofData :: "jsstring \<Rightarrow> jsstring \<Rightarrow> verdict" where
  "verifyProofData prProofString userProofString =
     (let prMergedMatch = js_match mergedRegex prProofString;
          prLoginMatch = js_match loginRegex prProofString;
          prIdMatch = js_match idRegex prProofString;
          userLoginMatch = js_match loginRegex userProofString;
          userIdMatch = js_match idRegex userProofString;
          merged = (case prMergedMatch of
                      Some m \<Rightarrow> group 1 m = Some (js ''true'')
                    | None \<Rightarrow> False);
          validUser = (case (prLoginMatch, userLoginMatch) of
                         (Some m, Some m') \<Rightarrow> group 1 m = group 1 m'
                       | _ \<Rightarrow> False);
          validId = (case (prIdMatch, userIdMatch) of
                       (Some m, Some m') \<Rightarrow> group 1 m = group 1 m'
                     | _ \<Rightarrow> False);
          unknown = Some (js ''unknown'')
      in \<lparr>isMerged = merged,
          isValidUser = validUser,
          isValidId = validId,
          githubUsername = (case prLoginMatch of Some m \<Rightarrow> group 1 m | None \<Rightarrow> unknown),
          githubUserId = (case prIdMatch of Some m \<Rightarrow> group 1 m | None \<Rightarrow> unknown),
          userLogin = (case userLoginMatch of Some m \<Rightarrow> group 1 m | None \<Rightarrow> unknown),
          userId = (case userIdMatch of Some m \<Rightarrow> group 1 m | None \<Rightarrow> unknown),
          isValid = (merged \<and> validUser \<and> validId)\<rparr>)"

definition extractAndVerifyProof :: "runtime \<Rightarrow> json \<Rightarrow> json \<Rightarrow> error + verdict" where
  "extractAndVerifyProof rt prProofData userProofData =
     (let proofString =
            JSON_stringify
              (JObject [(js ''prProofData'', prProofData), (js ''userProofData'', userProofData)]);
          matches = matchAll contextRegex proofString
      in if length matches < 2
         then Inl (Error (js ''Could not extract context from proof data''))
         else
           (let prProofDataContext = parseJSONSafely rt (group 1 (matches ! 0));
                userProofDataContext = parseJSONSafely rt (group 1 (matches ! 1));
                prProofString = JSON_stringify prProofDataContext;
                userProofString = JSON_stringify userProofDataContext
            in Inr (verifyProofData prProofString userProofString)))"

text \<open>
  \<^verbatim>\<open>_createZKProof\<close>; \<open>now\<close> is \<^verbatim>\<open>Date.now()\<close>. \<^verbatim>\<open>JSON.stringify\<close> leaves out a property
  whose value is \<^verbatim>\<open>undefined\<close>.
\<close>

fun opt_prop :: "string \<Rightarrow> jsstring option \<Rightarrow> (jsstring \<times> json) list" where
  "opt_prop k None = []"
| "opt_prop k (Some v) = [(js k, JString v)]"

definition createZKProof :: "runtime \<Rightarrow> jsstring \<Rightarrow> json \<Rightarrow> json \<Rightarrow> verdict \<Rightarrow> error + jsstring" where
  "createZKProof rt now prProofData userProofData verificationResult =
     hexlify_utf8 rt
       (JSON_stringify
          (JObject
             [(js ''prProof'', prProofData),
              (js ''userProof'', userProofData),
              (js ''verified'',
               JObject
                 ([(js ''isMerged'', JBool (isMerged verificationResult)),
                   (js ''isValidUser'', JBool (isValidUser verificationResult)),
                   (js ''isValidId'', JBool (isValidId verificationResult))]
                  @ opt_prop ''githubUsername'' (githubUsername verificationResult)
                  @ opt_prop ''githubUserId'' (githubUserId verificationResult)
                  @ opt_prop ''userLogin'' (userLogin verificationResult)
                  @ opt_prop ''userId'' (userId verificationResult)
                  @ [(js ''timestamp'', JNumber now)]))]))"

text \<open>What \<^verbatim>\<open>verifyPR\<close> and \<^verbatim>\<open>fallbackVerification\<close> return.\<close>

record pr_metadata =
  md_isMerged :: bool
  md_isValidUser :: bool
  md_isValidId :: bool
  md_githubUsername :: "jsstring option"
  md_githubUserId :: "jsstring option"

record pr_result =
  res_isValid :: bool
  res_zkProof :: jsstring
  metadata :: "pr_metadata option"

text \<open>The body of the \<^verbatim>\<open>try\<close> block of \<^verbatim>\<open>verifyPR\<close> (the logging left out).\<close>

definition verifyPR_try ::
  "runtime \<Rightarrow> 'w outside \<Rightarrow> jsstring \<Rightarrow> jsstring \<Rightarrow> 'w state \<Rightarrow> (error + pr_result) \<times> 'w state" where
  "verifyPR_try rt out link token s =
     (case validatePRLink link of
        Inl e \<Rightarrow> (Inl e, s)
      | Inr m \<Rightarrow>
          (case callZKTLSAPI rt out link token s of
             (Inl e, s') \<Rightarrow> (Inl e, s')
           | (Inr (prProofData, userProofData), s') \<Rightarrow>
               (case extractAndVerifyProof rt prProofData userProofData of
                  Inl e \<Rightarrow> (Inl e, s')
                | Inr verificationResult \<Rightarrow>
                    (case createZKProof rt (Date_now out (world s')) prProofData userProofData
                            verificationResult of
                       Inl e \<Rightarrow> (Inl e, s')
                     | Inr zkProof \<Rightarrow>
                         (Inr \<lparr>res_isValid = isValid verificationResult,
                               res_zkProof = zkProof,
                               metadata =
                                 Some \<lparr>md_isMerged = isMerged verificationResult,
                                       md_isValidUser = isValidUser verificationResult,
                                       md_isValidId = isValidId verificationResult,
                                       md_githubUsername = githubUsername verificationResult,
                                       md_githubUserId = githubUserId verificationResult\<rparr>\<rparr>,
                          s')))))"

text \<open>\<^verbatim>\<open>verifyPR\<close>: whatever the \<^verbatim>\<open>try\<close> block throws is thrown again under a new message.\<close>

definition verifyPR ::
  "runtime \<Rightarrow> 'w outside \<Rightarrow> jsstring \<Rightarrow> jsstring \<Rightarrow> 'w state \<Rightarrow> (error + pr_result) \<times> 'w state" where
  "verifyPR rt out link token s =
     (case verifyPR_try rt out link token s of
        (Inl e, s') \<Rightarrow> (Inl (Error (js ''zkTLS verification failed: '' @ message e)), s')
      | (Inr r, s') \<Rightarrow> (Inr r, s'))"

text \<open>
  \<^verbatim>\<open>fallbackVerification\<close>: the merge flag read from the GitHub API; every failure gives
  the result \<^verbatim>\<open>{ isValid: false, zkProof: "0x" }\<close>.
\<close>

fun interpolate :: "jsstring option \<Rightarrow> jsstring" where
  "interpolate None = js ''undefined''"
| "interpolate (Some v) = v"

definition fallbackVerification ::
  "runtime \<Rightarrow> 'w outside \<Rightarrow> jsstring \<Rightarrow> 'w state \<Rightarrow> pr_result \<times> 'w state" where
  "fallbackVerification rt out link s =
     (let failed = \<lparr>res_isValid = False, res_zkProof = js ''0x'', metadata = None\<rparr> in
      case js_match prLinkRegex link of
        None \<Rightarrow> (failed, s)
      | Some m \<Rightarrow>
          (let owner = interpolate (group 1 m);
               repo = interpolate (group 2 m);
               prNumber = interpolate (group 3 m)
           in case call (CallGithubPulls owner repo prNumber) (github_pulls out owner repo prNumber) s of
                (Inl e, s') \<Rightarrow> (failed, s')
              | (Inr JNull, s') \<Rightarrow> (failed, s')
              | (Inr data, s') \<Rightarrow>
                  (let merged = (get_prop data (js ''merged'') = Some (JBool True)) in
                   case hexlify_utf8 rt
                          (JSON_stringify
                             (JObject [(js ''fallback'', JBool True), (js ''merged'', JBool merged)])) of
                     Inl e \<Rightarrow> (failed, s')
                   | Inr zkProof \<Rightarrow>
                       (\<lparr>res_isValid = merged, res_zkProof = zkProof, metadata = None\<rparr>, s'))))"

section \<open>The repository (operator.repository.js)\<close>

text \<open>
  \<^verbatim>\<open>getTask\<close> awaits the race of the contract read against a timer that rejects after
  \<open>TASK_DETAILS\<close> milliseconds. \<open>getTask_promise\<close> is the promise awaited, \<open>getTask\<close>
  what the caller gets; the race always settles (the timer does), so the last case of
  \<open>getTask\<close> is never taken.
\<close>

definition timeoutPromise :: "task promise" where
  "timeoutPromise = Settles TASK_DETAILS (Inl (Error (js ''Timeout getting task details'')))"

definition getTask_promise :: "task promise \<Rightarrow> task promise" where
  "getTask_promise taskPromise = Promise_race taskPromise timeoutPromise"

definition getTask :: "'w outside \<Rightarrow> nat \<Rightarrow> 'w state \<Rightarrow> (error + task) \<times> 'w state" where
  "getTask out taskId s =
     (case call (CallGetTask taskId) (avs_getTask out taskId) s of
        (taskPromise, s') \<Rightarrow>
          (case await (getTask_promise taskPromise) of
             Some r \<Rightarrow> (r, s')
           | None \<Rightarrow> (Inl (Error []), s')))"

definition pickTask :: "'w outside \<Rightarrow> nat \<Rightarrow> 'w state \<Rightarrow> (error + unit) \<times> 'w state" where
  "pickTask out taskId s = call (CallPickTask taskId) (avs_pickTask out taskId) s"

definition submitValidation ::
  "'w outside \<Rightarrow> nat \<Rightarrow> bool \<Rightarrow> jsstring \<Rightarrow> 'w state \<Rightarrow> (error + jsstring) \<times> 'w state" where
  "submitValidation out taskId valid zkProof s =
     call (CallSubmitValidation taskId valid zkProof) (avs_submitValidation out taskId valid zkProof) s"

definition getClaim :: "'w outside \<Rightarrow> nat \<Rightarrow> nat \<Rightarrow> 'w state \<Rightarrow> (error + claim) \<times> 'w state" where
  "getClaim out issue index s = call (CallClaims issue index) (issuesClaim_claims out issue index) s"

definition getOperatorTasks :: "'w outside \<Rightarrow> jsstring \<Rightarrow> 'w state \<Rightarrow> (error + nat list) \<times> 'w state" where
  "getOperatorTasks out operatorAddress s =
     call (CallGetOperatorTasks operatorAddress) (avs_getOperatorTasks out operatorAddress) s"

section \<open>The service (operator.service.js)\<close>

text \<open>
  \<open>me\<close> is \<^verbatim>\<open>this.operatorAddress\<close>, the address of the wallet. What \<^verbatim>\<open>pickUpTask\<close> returns
  has \<^verbatim>\<open>shouldProcess\<close> only when the task was not picked by this call (\<open>None\<close> is
  \<^verbatim>\<open>undefined\<close>).
\<close>

record pick_result =
  picked :: bool
  shouldProcess :: "bool option"

definition isAssignedToMe :: "jsstring \<Rightarrow> task \<Rightarrow> bool" where
  "isAssignedToMe me t = (toLowerCase (assignedOperator t) = toLowerCase me)"

definition handleNonPendingTask :: "jsstring \<Rightarrow> nat \<Rightarrow> task \<Rightarrow> pick_result" where
  "handleNonPendingTask me taskId t =
     (if isAssignedToMe me t \<and> status t = ASSIGNED
      then \<lparr>picked = False, shouldProcess = Some True\<rparr>
      else \<lparr>picked = False, shouldProcess = Some False\<rparr>)"

definition handlePickTaskError ::
  "'w outside \<Rightarrow> jsstring \<Rightarrow> nat \<Rightarrow> error \<Rightarrow> 'w state \<Rightarrow> (error + pick_result) \<times> 'w state" where
  "handlePickTaskError out me taskId e s =
     (let isAlreadyAssigned = list_ex (\<lambda>code. js_includes (message e) code) TASK_ALREADY_ASSIGNED in
      if isAlreadyAssigned
      then (case getTask out taskId s of
              (Inr t, s') \<Rightarrow>
                (if isAssignedToMe me t
                 then (Inr \<lparr>picked = False, shouldProcess = Some True\<rparr>, s')
                 else (Inr \<lparr>picked = False, shouldProcess = Some False\<rparr>, s'))
            | (Inl checkError, s') \<Rightarrow> (Inr \<lparr>picked = False, shouldProcess = Some False\<rparr>, s'))
      else (Inl e, s))"

definition pickUpTask ::
  "'w outside \<Rightarrow> jsstring \<Rightarrow> nat \<Rightarrow> 'w state \<Rightarrow> (error + pick_result) \<times> 'w state" where
  "pickUpTask out me taskId s =
     (case getTask out taskId s of
        (Inl e, s1) \<Rightarrow> (Inl e, s1)
      | (Inr t, s1) \<Rightarrow>
          (if status t \<noteq> PENDING then (Inr (handleNonPendingTask me taskId t), s1)
           else (case pickTask out taskId s1 of
                   (Inr receipt, s2) \<Rightarrow> (Inr \<lparr>picked = True, shouldProcess = None\<rparr>, s2)
                 | (Inl e, s2) \<Rightarrow> handlePickTaskError out me taskId e s2)))"

text \<open>\<^verbatim>\<open>_getAccessToken\<close>: the sixth component of the claim (the tuple has no named fields).\<close>

definition getAccessToken :: "'w outside \<Rightarrow> task \<Rightarrow> 'w state \<Rightarrow> (error + jsstring) \<times> 'w state" where
  "getAccessToken out t s =
     (case getClaim out (issueId t) (claimIndex t) s of
        (Inl e, s') \<Rightarrow> (Inl e, s')
      | (Inr claimResult, s') \<Rightarrow> (Inr (accessToken claimResult), s'))"

definition submitValidation_service ::
  "'w outside \<Rightarrow> nat \<Rightarrow> bool \<Rightarrow> jsstring \<Rightarrow> 'w state \<Rightarrow> (error + unit) \<times> 'w state" where
  "submitValidation_service out taskId valid zkProof s =
     (case submitValidation out taskId valid zkProof s of
        (Inl e, s') \<Rightarrow> (Inl e, s')
      | (Inr receipt, s') \<Rightarrow> (Inr (), s'))"

text \<open>
  \<^verbatim>\<open>processTask\<close>. \<open>processTask_try\<close> is the \<^verbatim>\<open>try\<close> block; the \<^verbatim>\<open>catch\<close> clause logs and
  throws the error again; the \<^verbatim>\<open>finally\<close> clause deletes the id from the guard set.
\<close>

definition processTask_try ::
  "runtime \<Rightarrow> 'w outside \<Rightarrow> nat \<Rightarrow> 'w state \<Rightarrow> (error + unit) \<times> 'w state" where
  "processTask_try rt out taskId s =
     (case getTask out taskId s of
        (Inl e, s1) \<Rightarrow> (Inl e, s1)
      | (Inr t, s1) \<Rightarrow>
          (case getAccessToken out t s1 of
             (Inl e, s2) \<Rightarrow> (Inl e, s2)
           | (Inr token, s2) \<Rightarrow>
               (case verifyPR rt out (prLink t) token s2 of
                  (Inl e, s3) \<Rightarrow> (Inl e, s3)
                | (Inr r, s3) \<Rightarrow>
                    submitValidation_service out taskId (res_isValid r) (res_zkProof r) s3)))"

definition processTask ::
  "runtime \<Rightarrow> 'w outside \<Rightarrow> nat \<Rightarrow> 'w state \<Rightarrow> (error + unit) \<times> 'w state" where
  "processTask rt out taskId s =
     (if taskId \<in> processingTasks s then (Inr (), s)
      else (case processTask_try rt out taskId
                   (s\<lparr>processingTasks := insert taskId (processingTasks s)\<rparr>) of
              (r, s') \<Rightarrow> (r, s'\<lparr>processingTasks := processingTasks s' - {taskId}\<rparr>)))"

section \<open>The controller (operator.controller.js)\<close>

text \<open>
  The two event handlers; \<open>me\<close> is \<^verbatim>\<open>this.wallet.address\<close>, which the constructor also
  hands to the service. \<^verbatim>\<open>_handleTaskCreated\<close> first waits (which changes nothing here),
  and it catches and logs every error.
\<close>

definition handleTaskAssigned ::
  "runtime \<Rightarrow> 'w outside \<Rightarrow> jsstring \<Rightarrow> nat \<Rightarrow> jsstring \<Rightarrow> 'w state \<Rightarrow> (error + unit) \<times> 'w state" where
  "handleTaskAssigned rt out me taskId operator s =
     (if toLowerCase operator = toLowerCase me
      then (if taskId \<notin> processingTasks s then processTask rt out taskId s else (Inr (), s))
      else (Inr (), s))"

definition handleTaskCreated ::
  "runtime \<Rightarrow> 'w outside \<Rightarrow> jsstring \<Rightarrow> nat \<Rightarrow> 'w state \<Rightarrow> 'w state" where
  "handleTaskCreated rt out me taskId s =
     (case getTask out taskId s of
        (Inl e, s1) \<Rightarrow> s1
      | (Inr t, s1) \<Rightarrow>
          (if isAssignedToMe me t then snd (processTask rt out taskId s1)
           else if status t = 0
           then (case pickUpTask out me taskId s1 of
                   (Inl e, s2) \<Rightarrow> s2
                 | (Inr result, s2) \<Rightarrow>
                     (if picked result \<or> shouldProcess result = Some True
                      then snd (processTask rt out taskId s2)
                      else s2))
           else s1))"

section \<open>Attempts running side by side\<close>

text \<open>
  An \<^verbatim>\<open>async\<close> function runs without interruption from one \<^verbatim>\<open>await\<close> to the next, and
  between two of them other attempts may run. An attempt of \<^verbatim>\<open>processTask\<close> is therefore
  at one of these points: not started, waiting at one of its four \<^verbatim>\<open>await\<close>s (with the
  local variables it needs later), or returned. \<open>resume\<close> runs an attempt up to its next
  \<^verbatim>\<open>await\<close>: it takes the answer of the call awaited and runs the code that follows; when
  the function is left, by \<^verbatim>\<open>return\<close> or by an error, the \<^verbatim>\<open>finally\<close> clause (\<open>release\<close>)
  runs in the same step. A process is a list of attempts, each with its task id, over
  one shared state; a schedule says which attempt is resumed next.
\<close>

datatype attempt =
    NotStarted
  | AwaitingTask
  | AwaitingToken task
  | AwaitingVerdict task jsstring
  | AwaitingReceipt bool jsstring
  | Returned "error + unit"

definition release :: "nat \<Rightarrow> 'w state \<Rightarrow> 'w state" where
  "release taskId s = s\<lparr>processingTasks := processingTasks s - {taskId}\<rparr>"

fun resume :: "runtime \<Rightarrow> 'w outside \<Rightarrow> nat \<Rightarrow> attempt \<Rightarrow> 'w state \<Rightarrow> attempt \<times> 'w state" where
  "resume rt out taskId NotStarted s =
     (if taskId \<in> processingTasks s then (Returned (Inr ()), s)
      else (AwaitingTask, s\<lparr>processingTasks := insert taskId (processingTasks s)\<rparr>))"
| "resume rt out taskId AwaitingTask s =
     (case getTask out taskId s of
        (Inl e, s') \<Rightarrow> (Returned (Inl e), release taskId s')
      | (Inr t, s') \<Rightarrow> (AwaitingToken t, s'))"
| "resume rt out taskId (AwaitingToken t) s =
     (case getAccessToken out t s of
        (Inl e, s') \<Rightarrow> (Returned (Inl e), release taskId s')
      | (Inr token, s') \<Rightarrow> (AwaitingVerdict t token, s'))"
| "resume rt out taskId (AwaitingVerdict t token) s =
     (case verifyPR rt out (prLink t) token s of
        (Inl e, s') \<Rightarrow> (Returned (Inl e), release taskId s')
      | (Inr r, s') \<Rightarrow> (AwaitingReceipt (res_isValid r) (res_zkProof r), s'))"
| "resume rt out taskId (AwaitingReceipt valid zkProof) s =
     (case submitValidation_service out taskId valid zkProof s of
        (r, s') \<Rightarrow> (Returned r, release taskId s'))"
| "resume rt out taskId (Returned r) s = (Returned r, s)"

type_synonym 'w process = "(nat \<times> attempt) list \<times> 'w state"

definition step :: "runtime \<Rightarrow> 'w outside \<Rightarrow> nat \<Rightarrow> 'w process \<Rightarrow> 'w process" where
  "step rt out i c =
     (case c of (attempts, s) \<Rightarrow>
        if i < length attempts
        then (case attempts ! i of (taskId, a) \<Rightarrow>
                (case resume rt out taskId a s of
                   (a', s') \<Rightarrow> (attempts[i := (taskId, a')], s')))
        else (attempts, s))"

fun run :: "runtime \<Rightarrow> 'w outside \<Rightarrow> nat list \<Rightarrow> 'w process \<Rightarrow> 'w process" where
  "run rt out [] c = c"
| "run rt out (i # schedule) c = run rt out schedule (step rt out i c)"

text \<open>
  An attempt is in flight from its entry into the \<^verbatim>\<open>try\<close> block until it returns.
\<close>

fun in_flight :: "attempt \<Rightarrow> bool" where
  "in_flight NotStarted = False"
| "in_flight (Returned r) = False"
| "in_flight a = True"

definition in_flight_count :: "nat \<Rightarrow> (nat \<times> attempt) list \<Rightarrow> nat" where
  "in_flight_count taskId attempts =
     length (filter (\<lambda>x. fst x = taskId \<and> in_flight (snd x)) attempts)"

definition guard_ok :: "'w process \<Rightarrow> bool" where
  "guard_ok c =
     (\<forall>taskId. in_flight_count taskId (fst c) = (if taskId \<in> processingTasks (snd c) then 1 else 0))"

section \<open>Notions of the specification\<close>

text \<open>
  Two address strings that differ only in letter case: they have the same length and, at
  each position, the same character or the two cases of one ASCII letter.
\<close>

definition only_case_differs :: "jsstring \<Rightarrow> jsstring \<Rightarrow> bool" where
  "only_case_differs a b =
     list_all2 (\<lambda>x y. x = y \<or> (65 \<le> x \<and> x \<le> 90 \<and> y = x + 32) \<or> (65 \<le> y \<and> y \<le> 90 \<and> x = y + 32)) a b"

text \<open>
  A conflict error: its message contains one of the three known conflict signatures.
\<close>

definition is_conflict :: "error \<Rightarrow> bool" where
  "is_conflict e =
     (\<exists>code \<in> {js ''TaskAlreadyAssigned'', js ''0x48780f5a'', js ''0x27e1f1e5''}.
        \<exists>before after. message e = before @ code @ after)"

text \<open>
  The three field patterns of the validator are one pattern, for a key and a class of
  value characters: the key between double quotes, a colon with optional white space on
  both sides, and a non-empty value of the class between double quotes.
  \<open>is_field key k v occ\<close> says that the text \<open>occ\<close> is such a field with the value
  \<open>v\<close>; \<open>field_at key k s i v\<close> that one stands at position \<open>i\<close> of \<open>s\<close>; and
  \<open>first_field key k s v\<close> that the leftmost field of \<open>s\<close> with this key has the
  value \<open>v\<close>.
\<close>

definition field_rx :: "string \<Rightarrow> cls \<Rightarrow> item list" where
  "field_rx key k =
     quoted key @ [Star Space, Chr 58, Star Space, Chr 34, Open, Plus k, Close, Chr 34]"

definition is_field :: "string \<Rightarrow> cls \<Rightarrow> jsstring \<Rightarrow> jsstring \<Rightarrow> bool" where
  "is_field key k v occ =
     (\<exists>w1 w2. occ = 34 # js key @ [34] @ w1 @ [58] @ w2 @ [34] @ v @ [34]
        \<and> list_all (in_cls Space) w1 \<and> list_all (in_cls Space) w2
        \<and> v \<noteq> [] \<and> list_all (in_cls k) v)"

definition field_at :: "string \<Rightarrow> cls \<Rightarrow> jsstring \<Rightarrow> nat \<Rightarrow> jsstring \<Rightarrow> bool" where
  "field_at key k s i v =
     (i \<le> length s \<and> (\<exists>occ post. drop i s = occ @ post \<and> is_field key k v occ))"

definition first_field :: "string \<Rightarrow> cls \<Rightarrow> jsstring \<Rightarrow> jsstring \<Rightarrow> bool" where
  "first_field key k s v =
     (\<exists>i. field_at key k s i v \<and> (\<forall>j<i. \<forall>u. \<not> field_at key k s j u))"

text \<open>
  The index just after the match that \<open>js_search\<close> finds (\<^verbatim>\<open>m.index + m[0].length\<close>).
\<close>

definition match_end :: "item list \<Rightarrow> jsstring \<Rightarrow> nat option" where
  "match_end rx s =
     (case js_search rx s of Some (gs, rest) \<Rightarrow> Some (length s - length rest) | None \<Rightarrow> None)"

text \<open>
  The failures of a step of \<^verbatim>\<open>verifyPR\<close> that the specification names: the PR link is
  invalid, the call of the proof service fails, the response lacks one of the two proof
  subjects, or fewer than two contexts can be extracted. \<open>proof_response\<close> is what the
  proof service answers in the world \<open>w\<close>.
\<close>

definition proof_response :: "runtime \<Rightarrow> 'w outside \<Rightarrow> jsstring \<Rightarrow> jsstring \<Rightarrow> 'w \<Rightarrow> error + json" where
  "proof_response rt out link token w =
     fst (zktls_generate_proof out link (if token \<noteq> [] then token else ZKTLS_ACCESS_TOKEN rt) w)"

definition verification_fails :: "runtime \<Rightarrow> 'w outside \<Rightarrow> jsstring \<Rightarrow> jsstring \<Rightarrow> 'w \<Rightarrow> bool" where
  "verification_fails rt out link token w =
     ((\<exists>e. validatePRLink link = Inl e)
      \<or> (\<exists>e. proof_response rt out link token w = Inl e)
      \<or> (\<exists>data. proof_response rt out link token w = Inr data
            \<and> (falsy (get_prop data (js ''prProofData''))
                \<or> falsy (get_prop data (js ''userProofData''))))
      \<or> (\<exists>data prProofData userProofData e.
            proof_response rt out link token w = Inr data
            \<and> get_prop data (js ''prProofData'') = Some prProofData
            \<and> get_prop data (js ''userProofData'') = Some userProofData
            \<and> extractAndVerifyProof rt prProofData userProofData = Inl e))"

text \<open>
  A match of the context pattern is unparsable when the text of its fragment, with the
  escaped quotes replaced, is rejected by \<^verbatim>\<open>JSON.parse\<close>.
\<close>

definition unparsable :: "runtime \<Rightarrow> jsstring list \<Rightarrow> bool" where
  "unparsable rt m =
     (\<exists>fragment. group 1 m = Some fragment
        \<and> JSON_parse rt (js_replace_all escapedQuoteRegex [34] fragment) = None)"

text \<open>The calls that submit a validation, and those of the fallback verification.\<close>

fun is_submission :: "request \<Rightarrow> bool" where
  "is_submission (CallSubmitValidation taskId valid zkProof) = True"
| "is_submission rq = False"

fun is_fallback :: "request \<Rightarrow> bool" where
  "is_fallback (CallGithubPulls owner repo prNumber) = True"
| "is_fallback rq = False"

section \<open>Example inputs\<close>

text \<open>
  A task, a claim, and an outside world whose state is the list of the answers the
  contract will give to the next reads of a task; the acquisition write and the proof
  service always give the answer chosen.
\<close>

definition example_task :: "nat \<Rightarrow> jsstring \<Rightarrow> task" where
  "example_task st operator =
     \<lparr>task_taskId = 1, issueId = 3, claimIndex = 0, prLink = js ''https://github.com/o/r/pull/5'',
      developer = js ''0xd1'', createdAt = 0, status = st, assignedOperator = operator,
      task_zkProof = []\<rparr>"

definition example_claim :: claim where
  "example_claim =
     \<lparr>claim_prLink = js ''https://github.com/o/r/pull/5'', claim_isMerged = False,
      claim_developer = js ''0xd1'', claim_isValidated = False, claim_timestamp = 0,
      accessToken = js ''tok''\<rparr>"

definition example_world :: "error + unit \<Rightarrow> error + json \<Rightarrow> (task promise list) outside" where
  "example_world pick proofs =
     \<lparr>avs_getTask = (\<lambda>taskId w. case w of [] \<Rightarrow> (Never, []) | p # r \<Rightarrow> (p, r)),
      avs_pickTask = (\<lambda>taskId w. (pick, w)),
      avs_submitValidation = (\<lambda>taskId valid zkProof w. (Inr (js ''0xfeed''), w)),
      avs_getOperatorTasks = (\<lambda>operatorAddress w. (Inr [1], w)),
      issuesClaim_claims = (\<lambda>issue index w. (Inr example_claim, w)),
      zktls_generate_proof = (\<lambda>link token w. (proofs, w)),
      github_pulls = (\<lambda>owner repo prNumber w. (Inl (Error (js ''offline'')), w)),
      Date_now = (\<lambda>w. js ''1700000000000'')\<rparr>"

definition start_state :: "'w \<Rightarrow> 'w state" where
  "start_state w = \<lparr>processingTasks = {}, world = w, calls = []\<rparr>"

text \<open>
  A context with the three fields, a proof subject that embeds a context as escaped JSON
  text, and a runtime whose \<^verbatim>\<open>JSON.parse\<close> reads back the texts of the values listed and
  rejects every other text. \<open>example_payload\<close> is a response of the proof service with
  two such subjects.
\<close>

definition example_context :: "string \<Rightarrow> string \<Rightarrow> string \<Rightarrow> json" where
  "example_context merged login ident =
     JObject [(js ''merged'', JString (js merged)), (js ''login'', JString (js login)),
              (js ''id'', JString (js ident))]"

definition example_subject :: "json \<Rightarrow> json" where
  "example_subject c = JObject [(js ''context'', JString (JSON_stringify c))]"

definition example_runtime :: "json list \<Rightarrow> runtime" where
  "example_runtime known =
     \<lparr>JSON_parse = map_of (map (\<lambda>v. (JSON_stringify v, v)) known),
      hexlify_utf8 = (\<lambda>s. Inr (js ''0x'' @ s)),
      ZKTLS_ACCESS_TOKEN = []\<rparr>"

definition example_payload :: "json \<Rightarrow> json \<Rightarrow> json" where
  "example_payload prContext userContext =
     JObject [(js ''prProofData'', example_subject prContext),
              (js ''userProofData'', example_subject userContext)]"

section \<open>Strings and calls\<close>

lemmas ex_defs = example_task_def example_claim_def example_world_def start_state_def
  getTask_def call_def getTask_promise_def timeoutPromise_def TASK_DETAILS_def PENDING_def ASSIGNED_def
  pickTask_def js_def toLowerCase_def lower_unit_def isAssignedToMe_def

lemmas val_defs = js_def lit_def quoted_def mergedRegex_def loginRegex_def idRegex_def contextRegex_def
  escapedQuoteRegex_def verifyProofData_def quoteJSON_def escape_unit_def is_lead_def is_trail_def
  unicode_escape_def hex_digit_def extractAndVerifyProof_def parseJSONSafely_def js_match_def
  example_context_def example_subject_def example_runtime_def

lemmas run_defs = processTask_def processTask_try_def getAccessToken_def getClaim_def verifyPR_def
  verifyPR_try_def validatePRLink_def prLinkRegex_def callZKTLSAPI_def createZKProof_def
  submitValidation_service_def submitValidation_def example_payload_def

lemma js_includes_iff: "js_includes s sub \<longleftrightarrow> (\<exists>a b. s = a @ sub @ b)"
proof (induction s)
  case Nil
  then show ?case by auto
next
  case (Cons x xs)
  show ?case
  proof
    assume "js_includes (x # xs) sub"
    then consider "prefix sub (x # xs)" | "js_includes xs sub" by auto
    then show "\<exists>a b. x # xs = a @ sub @ b"
    proof cases
      case 1
      then obtain b where "x # xs = sub @ b" by (auto simp: prefix_def)
      then have "x # xs = [] @ sub @ b" by simp
      then show ?thesis by blast
    next
      case 2
      with Cons.IH obtain a b where "xs = a @ sub @ b" by blast
      then have "x # xs = (x # a) @ sub @ b" by simp
      then show ?thesis by blast
    qed
  next
    assume "\<exists>a b. x # xs = a @ sub @ b"
    then obtain a b where ab: "x # xs = a @ sub @ b" by blast
    show "js_includes (x # xs) sub"
    proof (cases a)
      case Nil
      with ab have "prefix sub (x # xs)" by (simp add: prefix_def)
      then show ?thesis by simp
    next
      case (Cons y ys)
      with ab have "xs = ys @ sub @ b" by simp
      with Cons.IH have "js_includes xs sub" by blast
      then show ?thesis by simp
    qed
  qed
qed

lemma conflict_check: "list_ex (\<lambda>code. js_includes (message e) code) TASK_ALREADY_ASSIGNED = is_conflict e"
  by (simp add: is_conflict_def TASK_ALREADY_ASSIGNED_def js_includes_iff)

lemma lower_unit_eq:
  "lower_unit x = lower_unit y \<longleftrightarrow>
     (x = y \<or> (65 \<le> x \<and> x \<le> 90 \<and> y = x + 32) \<or> (65 \<le> y \<and> y \<le> 90 \<and> x = y + 32))"
  by (auto simp: lower_unit_def)

lemma map_eq_rel: "map f a = map f b \<longleftrightarrow> list_all2 (\<lambda>x y. f x = f y) a b"
proof (induction a arbitrary: b)
  case Nil
  then show ?case by auto
next
  case (Cons x xs)
  then show ?case by (cases b) auto
qed

lemma toLowerCase_eq: "toLowerCase a = toLowerCase b \<longleftrightarrow> only_case_differs a b"
  unfolding toLowerCase_def only_case_differs_def
  by (simp add: map_eq_rel lower_unit_eq)

lemma calls_getTask: "getTask out taskId s = (r, s') \<Longrightarrow> calls s' = calls s @ [CallGetTask taskId] \<and> processingTasks s' = processingTasks s"
  by (auto simp: getTask_def call_def split: prod.splits option.splits)

lemma calls_pickTask: "pickTask out taskId s = (r, s') \<Longrightarrow> calls s' = calls s @ [CallPickTask taskId] \<and> processingTasks s' = processingTasks s"
  by (auto simp: pickTask_def call_def split: prod.splits)

lemma race_settles: "await (getTask_promise p) \<noteq> None"
  by (cases p) (auto simp: getTask_promise_def timeoutPromise_def)

lemma calls_callZKTLSAPI:
  "callZKTLSAPI rt out link token s = (r, s') \<Longrightarrow>
   \<exists>bearer. calls s' = calls s @ [CallGenerateProof link bearer]"
  by (auto simp: callZKTLSAPI_def call_def Let_def
           split: prod.splits sum.splits json.splits option.splits if_splits)

lemma calls_verifyPR:
  "verifyPR rt out link token s = (r, s') \<Longrightarrow>
   calls s' = calls s \<or> (\<exists>bearer. calls s' = calls s @ [CallGenerateProof link bearer])"
  by (auto simp: verifyPR_def verifyPR_try_def
           split: prod.splits sum.splits dest: calls_callZKTLSAPI)

lemma calls_getAccessToken:
  "getAccessToken out t s = (r, s') \<Longrightarrow> calls s' = calls s @ [CallClaims (issueId t) (claimIndex t)]"
  by (auto simp: getAccessToken_def getClaim_def call_def split: prod.splits sum.splits)

lemma calls_submit:
  "submitValidation_service out taskId valid zkProof s = (r, s') \<Longrightarrow>
   calls s' = calls s @ [CallSubmitValidation taskId valid zkProof]"
  by (auto simp: submitValidation_service_def submitValidation_def call_def
           split: prod.splits sum.splits)

lemma guard_getTask: "getTask out taskId s = (r, s') \<Longrightarrow> processingTasks s' = processingTasks s"
  by (auto simp: getTask_def call_def split: prod.splits option.splits)

lemma guard_getAccessToken:
  "getAccessToken out t s = (r, s') \<Longrightarrow> processingTasks s' = processingTasks s"
  by (auto simp: getAccessToken_def getClaim_def call_def split: prod.splits sum.splits)

lemma guard_callZKTLSAPI:
  "callZKTLSAPI rt out link token s = (r, s') \<Longrightarrow> processingTasks s' = processingTasks s"
  by (auto simp: callZKTLSAPI_def call_def Let_def
           split: prod.splits sum.splits json.splits option.splits if_splits)

lemma guard_verifyPR:
  "verifyPR rt out link token s = (r, s') \<Longrightarrow> processingTasks s' = processingTasks s"
  by (auto simp: verifyPR_def verifyPR_try_def
           split: prod.splits sum.splits dest: guard_callZKTLSAPI)

lemma guard_submit:
  "submitValidation_service out taskId valid zkProof s = (r, s') \<Longrightarrow>
   processingTasks s' = processingTasks s"
  by (auto simp: submitValidation_service_def submitValidation_def call_def
           split: prod.splits sum.splits)

lemma guard_processTask_try:
  "processTask_try rt out taskId s = (r, s') \<Longrightarrow> processingTasks s' = processingTasks s"
  by (auto simp: processTask_try_def split: prod.splits sum.splits
           dest!: guard_getTask guard_getAccessToken guard_verifyPR guard_submit)

section \<open>The field patterns\<close>

text \<open>
  At one position the backtracking matcher has no choice on a field pattern: white space
  is followed by a character that is not white space, and the value by a double quote
  that is not in the class of the value.
\<close>

lemma match_here_lit:
  "match_here (map Chr l @ r) s (gs, None) =
     (if prefix l s then match_here r (drop (length l) s) (gs, None) else None)"
proof (induction l arbitrary: s)
  case Nil
  then show ?case by simp
next
  case (Cons c l)
  then show ?case by (cases s) auto
qed

lemma match_here_star:
  "\<not> in_cls k c \<Longrightarrow>
   match_here (Star k # Chr c # r) s (gs, None) =
     match_here (Chr c # r) (dropWhile (in_cls k) s) (gs, None)"
proof (induction s)
  case Nil
  then show ?case by simp
next
  case (Cons x xs)
  then show ?case by (auto split: option.splits)
qed

lemma match_here_star_group:
  "\<not> in_cls k c \<Longrightarrow>
   match_here (Star k # Close # Chr c # r) s (gs, Some a) =
     match_here (Chr c # r) (dropWhile (in_cls k) s) (gs @ [a @ takeWhile (in_cls k) s], None)"
proof (induction s arbitrary: a)
  case Nil
  then show ?case by simp
next
  case (Cons x xs)
  then show ?case by (auto split: option.splits)
qed

lemma match_here_plus_group:
  "\<not> in_cls k c \<Longrightarrow>
   match_here (Open # Plus k # Close # Chr c # r) s (gs, None) =
     (if takeWhile (in_cls k) s = [] then None
      else match_here (Chr c # r) (dropWhile (in_cls k) s) (gs @ [takeWhile (in_cls k) s], None))"
  by (cases s) (auto simp: match_here_star_group)

lemma match_here_chr:
  "match_here (Chr c # r) s (gs, None) =
     (case s of [] \<Rightarrow> None | x # xs \<Rightarrow> if x = c then match_here r xs (gs, None) else None)"
  by (cases s) auto

lemma field_here:
  assumes "\<not> in_cls k 34"
  shows "match_here (field_rx key k) s ([], None) =
     (if prefix (34 # js key @ [34]) s then
        (case dropWhile (in_cls Space) (drop (length (js key) + 2) s) of
           [] \<Rightarrow> None
         | c # r2 \<Rightarrow>
             if c = 58 then
               (case dropWhile (in_cls Space) r2 of
                  [] \<Rightarrow> None
                | d # r3 \<Rightarrow>
                    if d = 34 then
                      (if takeWhile (in_cls k) r3 = [] then None
                       else (case dropWhile (in_cls k) r3 of
                               [] \<Rightarrow> None
                             | e # r4 \<Rightarrow> if e = 34 then Some ([takeWhile (in_cls k) r3], r4) else None))
                    else None)
             else None)
      else None)"
proof -
  have q: "field_rx key k =
      map Chr (34 # js key @ [34]) @ (Star Space # Chr 58 # Star Space # Chr 34 # Open # Plus k # Close # [Chr 34])"
    by (simp add: field_rx_def quoted_def lit_def)
  have sp: "\<not> in_cls Space 58" "\<not> in_cls Space 34"
    by simp_all
  show ?thesis
    unfolding q match_here_lit match_here_star [OF sp(1)] match_here_star [OF sp(2)]
      match_here_chr match_here_plus_group [OF assms] match_here.simps(1) append_Nil fst_conv
    by simp
qed

lemma dropWhile_split: "dropWhile P xs = y # ys \<Longrightarrow> xs = takeWhile P xs @ y # ys"
  by (metis takeWhile_dropWhile_id)

lemma field_here_Some:
  assumes k: "\<not> in_cls k 34"
  shows "match_here (field_rx key k) s ([], None) = Some (gs, rest) \<longleftrightarrow>
           (\<exists>v occ. gs = [v] \<and> s = occ @ rest \<and> is_field key k v occ)"
proof
  assume m: "match_here (field_rx key k) s ([], None) = Some (gs, rest)"
  let ?q = "34 # js key @ [34]"
  let ?s1 = "drop (length (js key) + 2) s"
  from m have pq: "prefix ?q s"
    by (simp add: field_here [OF k] split: if_splits)
  then have s: "s = ?q @ ?s1"
    by (auto simp: prefix_def)
  from m pq obtain r2 where r2: "dropWhile (in_cls Space) ?s1 = 58 # r2"
    by (auto simp: field_here [OF k] split: list.splits if_splits)
  from m pq r2 obtain r3 where r3: "dropWhile (in_cls Space) r2 = 34 # r3"
    by (auto simp: field_here [OF k] split: list.splits if_splits)
  from m pq r2 r3 have v: "takeWhile (in_cls k) r3 \<noteq> []"
    and r4: "dropWhile (in_cls k) r3 = 34 # rest" and gs: "gs = [takeWhile (in_cls k) r3]"
    by (auto simp: field_here [OF k] split: list.splits if_splits)
  let ?w1 = "takeWhile (in_cls Space) ?s1"
  let ?w2 = "takeWhile (in_cls Space) r2"
  let ?v = "takeWhile (in_cls k) r3"
  have e1: "?s1 = ?w1 @ 58 # r2"
    by (rule dropWhile_split [OF r2])
  have e2: "r2 = ?w2 @ 34 # r3"
    by (rule dropWhile_split [OF r3])
  have e3: "r3 = ?v @ 34 # rest"
    by (rule dropWhile_split [OF r4])
  have "s = ?q @ ?w1 @ 58 # ?w2 @ 34 # ?v @ 34 # rest"
    using s e1 e2 e3 by metis
  then have "s = (34 # js key @ [34] @ ?w1 @ [58] @ ?w2 @ [34] @ ?v @ [34]) @ rest"
    by simp
  moreover have "is_field key k ?v (34 # js key @ [34] @ ?w1 @ [58] @ ?w2 @ [34] @ ?v @ [34])"
    unfolding is_field_def using v
    by (intro exI [of _ ?w1] exI [of _ ?w2])
       (auto simp: list_all_iff dest: set_takeWhileD simp del: in_cls.simps)
  ultimately show "\<exists>v occ. gs = [v] \<and> s = occ @ rest \<and> is_field key k v occ"
    using gs by blast
next
  assume "\<exists>v occ. gs = [v] \<and> s = occ @ rest \<and> is_field key k v occ"
  then obtain v w1 w2 where gs: "gs = [v]"
    and s: "s = (34 # js key @ [34] @ w1 @ [58] @ w2 @ [34] @ v @ [34]) @ rest"
    and w1: "list_all (in_cls Space) w1" and w2: "list_all (in_cls Space) w2"
    and v: "v \<noteq> []" "list_all (in_cls k) v"
    by (auto simp: is_field_def)
  have pq: "prefix (34 # js key @ [34]) s"
    by (simp add: s)
  have d1: "drop (length (js key) + 2) s = w1 @ 58 # w2 @ 34 # v @ 34 # rest"
    by (simp add: s)
  have a: "dropWhile (in_cls Space) (w1 @ 58 # w2 @ 34 # v @ 34 # rest) = 58 # w2 @ 34 # v @ 34 # rest"
    using w1 by (simp add: dropWhile_append2 list_all_iff del: in_cls.simps) simp
  have b: "dropWhile (in_cls Space) (w2 @ 34 # v @ 34 # rest) = 34 # v @ 34 # rest"
    using w2 by (simp add: dropWhile_append2 list_all_iff del: in_cls.simps) simp
  have c: "takeWhile (in_cls k) (v @ 34 # rest) = v"
    using v k by (simp add: takeWhile_append2 list_all_iff del: in_cls.simps)
  have d: "dropWhile (in_cls k) (v @ 34 # rest) = 34 # rest"
    using v k by (simp add: dropWhile_append2 list_all_iff del: in_cls.simps)
  show "match_here (field_rx key k) s ([], None) = Some (gs, rest)"
    unfolding field_here [OF k] d1 using pq v(1)
    by (simp add: a b c d gs del: in_cls.simps)
qed

lemma field_here_None:
  assumes k: "\<not> in_cls k 34"
  shows "match_here (field_rx key k) s ([], None) = None \<longleftrightarrow>
           (\<forall>v occ rest. s = occ @ rest \<longrightarrow> \<not> is_field key k v occ)"
proof -
  have "match_here (field_rx key k) s ([], None) \<noteq> None \<longleftrightarrow>
          (\<exists>gs rest. match_here (field_rx key k) s ([], None) = Some (gs, rest))"
    by auto
  also have "\<dots> \<longleftrightarrow> (\<exists>v occ rest. s = occ @ rest \<and> is_field key k v occ)"
    unfolding field_here_Some [OF k] by blast
  finally show ?thesis by blast
qed

lemma field_here_append:
  assumes k: "\<not> in_cls k 34"
    and m: "match_here (field_rx key k) s ([], None) = Some (gs, rest)"
  shows "match_here (field_rx key k) (s @ t) ([], None) = Some (gs, rest @ t)"
proof -
  from m obtain v occ where "gs = [v]" "s = occ @ rest" "is_field key k v occ"
    unfolding field_here_Some [OF k] by blast
  then have "\<exists>v occ. gs = [v] \<and> s @ t = occ @ rest @ t \<and> is_field key k v occ"
    by auto
  then show ?thesis
    unfolding field_here_Some [OF k] .
qed

text \<open>
  A field holds four double quotes and ends with one, so a text with four double quotes
  is not the beginning of a longer field: a position where no field starts stays one
  when text is appended after a later field.
\<close>

lemma count_list_all_0: "list_all P xs \<Longrightarrow> \<not> P c \<Longrightarrow> count_list xs c = 0"
  by (induction xs) auto

lemma is_field_quotes:
  assumes k: "\<not> in_cls k 34" and key: "34 \<notin> set (js key)" and f: "is_field key k v occ"
  shows "count_list occ 34 = 4" and "occ \<noteq> []" and "last occ = 34"
proof -
  from f obtain w1 w2 where occ: "occ = 34 # js key @ [34] @ w1 @ [58] @ w2 @ [34] @ v @ [34]"
    and w1: "list_all (in_cls Space) w1" and w2: "list_all (in_cls Space) w2"
    and v: "list_all (in_cls k) v"
    by (auto simp: is_field_def)
  have sp: "\<not> in_cls Space 34" by simp
  have "count_list w1 34 = 0" "count_list w2 34 = 0" "count_list v 34 = 0" "count_list (js key) 34 = 0"
    using count_list_all_0 [OF w1 sp] count_list_all_0 [OF w2 sp] count_list_all_0 [OF v k] key
    by (simp_all add: count_list_0_iff)
  then show "count_list occ 34 = 4"
    by (simp add: occ)
  show "occ \<noteq> []" "last occ = 34"
    by (simp_all add: occ)
qed

lemma proper_prefix_quotes:
  assumes k: "\<not> in_cls k 34" and key: "34 \<notin> set (js key)" and f: "is_field key k v (p @ q)"
    and q: "q \<noteq> []"
  shows "count_list p 34 \<le> 3"
proof -
  from is_field_quotes [OF k key f] have c: "count_list (p @ q) 34 = 4" and l: "last (p @ q) = 34"
    by simp_all
  from l q have "last q = 34" by simp
  with q have "34 \<in> set q" using last_in_set by metis
  then have "count_list q 34 \<noteq> 0" by (simp add: count_list_0_iff)
  with c show ?thesis by simp
qed

lemma field_fail_stable:
  assumes k: "\<not> in_cls k 34" and key: "34 \<notin> set (js key)"
    and m: "match_here (field_rx key k) u ([], None) = None"
    and c: "4 \<le> count_list u 34"
  shows "match_here (field_rx key k) (u @ t) ([], None) = None"
proof (rule ccontr)
  assume "match_here (field_rx key k) (u @ t) ([], None) \<noteq> None"
  then obtain gs rest where "match_here (field_rx key k) (u @ t) ([], None) = Some (gs, rest)"
    by auto
  then obtain v occ where e: "u @ t = occ @ rest" and f: "is_field key k v occ"
    unfolding field_here_Some [OF k] by blast
  from e consider us where "u = occ @ us" | us where "u @ us = occ" "us \<noteq> []"
    by (auto simp: append_eq_append_conv2) (metis append_Nil2)
  then show False
  proof cases
    case 1
    with f m show False
      unfolding field_here_None [OF k] by blast
  next
    case 2
    with f have "is_field key k v (u @ us)" by simp
    from proper_prefix_quotes [OF k key this 2(2)] c show False by simp
  qed
qed

lemma js_search_head:
  "match_here rx s ([], None) = Some res \<Longrightarrow> js_search rx s = Some res"
  by (cases s) auto

lemma js_search_quotes:
  assumes k: "\<not> in_cls k 34" and key: "34 \<notin> set (js key)"
  shows "js_search (field_rx key k) s = Some (gs, rest) \<Longrightarrow> 4 \<le> count_list s 34"
proof (induction s)
  case Nil
  then obtain v occ where "[] = occ @ rest" "is_field key k v occ"
    unfolding js_search.simps field_here_Some [OF k] by blast
  with is_field_quotes(2) [OF k key] show ?case by auto
next
  case (Cons x xs)
  show ?case
  proof (cases "match_here (field_rx key k) (x # xs) ([], None)")
    case None
    with Cons show ?thesis by simp
  next
    case (Some res)
    with Cons.prems have "match_here (field_rx key k) (x # xs) ([], None) = Some (gs, rest)"
      by simp
    then obtain v occ where e: "x # xs = occ @ rest" and f: "is_field key k v occ"
      unfolding field_here_Some [OF k] by blast
    from is_field_quotes(1) [OF k key f] have "count_list occ 34 = 4" .
    then have "4 \<le> count_list (occ @ rest) 34" by simp
    with e show ?thesis by metis
  qed
qed

lemma js_search_append:
  assumes k: "\<not> in_cls k 34" and key: "34 \<notin> set (js key)"
  shows "js_search (field_rx key k) s = Some (gs, rest) \<Longrightarrow>
         js_search (field_rx key k) (s @ t) = Some (gs, rest @ t)"
proof (induction s)
  case Nil
  then have m: "match_here (field_rx key k) [] ([], None) = Some (gs, rest)"
    by simp
  from field_here_append [OF k m, of t] show ?case
    by (simp add: js_search_head)
next
  case (Cons x xs)
  show ?case
  proof (cases "match_here (field_rx key k) (x # xs) ([], None)")
    case None
    with Cons.prems have s: "js_search (field_rx key k) xs = Some (gs, rest)" by simp
    from js_search_quotes [OF k key s] have "4 \<le> count_list (x # xs) 34" by simp
    from field_fail_stable [OF k key None this]
    have "match_here (field_rx key k) (x # xs @ t) ([], None) = None" by simp
    with Cons.IH [OF s] show ?thesis by simp
  next
    case (Some res)
    with Cons.prems have "match_here (field_rx key k) (x # xs) ([], None) = Some (gs, rest)"
      by simp
    from field_here_append [OF k this]
    show ?thesis by (simp add: js_search_head)
  qed
qed

lemma js_search_take:
  assumes k: "\<not> in_cls k 34"
  shows "js_search (field_rx key k) s = Some (gs, rest) \<Longrightarrow>
         length rest \<le> length s
         \<and> js_search (field_rx key k) (take (length s - length rest) s) = Some (gs, [])"
proof (induction s)
  case Nil
  then obtain v occ where e: "[] = occ @ rest" and g: "gs = [v]" and f: "is_field key k v occ"
    unfolding js_search.simps field_here_Some [OF k] by blast
  then have "match_here (field_rx key k) [] ([], None) = Some (gs, [])"
    unfolding field_here_Some [OF k] by auto
  with e show ?case by simp
next
  case (Cons x xs)
  show ?case
  proof (cases "match_here (field_rx key k) (x # xs) ([], None)")
    case None
    with Cons.prems have s: "js_search (field_rx key k) xs = Some (gs, rest)" by simp
    from Cons.IH [OF s] have l: "length rest \<le> length xs"
      and i: "js_search (field_rx key k) (take (length xs - length rest) xs) = Some (gs, [])"
      by simp_all
    let ?n = "length xs - length rest"
    have "match_here (field_rx key k) (x # take ?n xs) ([], None) = None"
    proof (rule ccontr)
      assume "match_here (field_rx key k) (x # take ?n xs) ([], None) \<noteq> None"
      then obtain g r where m: "match_here (field_rx key k) (x # take ?n xs) ([], None) = Some (g, r)"
        by fastforce
      from field_here_append [OF k m, of "drop ?n xs"] None show False
        by simp
    qed
    moreover have "take (length (x # xs) - length rest) (x # xs) = x # take ?n xs"
      using l by (simp add: Suc_diff_le)
    ultimately show ?thesis using i l by simp
  next
    case (Some res)
    with Cons.prems have m: "match_here (field_rx key k) (x # xs) ([], None) = Some (gs, rest)"
      by simp
    then obtain v occ where e: "x # xs = occ @ rest" and g: "gs = [v]" and f: "is_field key k v occ"
      unfolding field_here_Some [OF k] by blast
    then have "match_here (field_rx key k) occ ([], None) = Some (gs, [])"
      unfolding field_here_Some [OF k] by auto
    then have "js_search (field_rx key k) occ = Some (gs, [])"
      by (rule js_search_head)
    moreover have "take (length (x # xs) - length rest) (x # xs) = occ" "length rest \<le> length (x # xs)"
      unfolding e by simp_all
    ultimately show ?thesis by simp
  qed
qed

text \<open>The search finds the leftmost position where the pattern matches.\<close>

lemma js_search_first:
  "js_search rx s = Some res \<longleftrightarrow>
     (\<exists>i\<le>length s. match_here rx (drop i s) ([], None) = Some res
        \<and> (\<forall>j<i. match_here rx (drop j s) ([], None) = None))"
proof (induction s)
  case Nil
  then show ?case by simp
next
  case (Cons x xs)
  show ?case
  proof (cases "match_here rx (x # xs) ([], None)")
    case None
    show ?thesis
    proof
      assume "js_search rx (x # xs) = Some res"
      with None Cons.IH obtain i where i: "i \<le> length xs"
        "match_here rx (drop i xs) ([], None) = Some res"
        "\<forall>j<i. match_here rx (drop j xs) ([], None) = None"
        by auto
      have "\<forall>j<Suc i. match_here rx (drop j (x # xs)) ([], None) = None"
      proof (intro allI impI)
        fix j assume "j < Suc i"
        then show "match_here rx (drop j (x # xs)) ([], None) = None"
          using None i(3) by (cases j) auto
      qed
      with i(1,2) show "\<exists>i\<le>length (x # xs). match_here rx (drop i (x # xs)) ([], None) = Some res
          \<and> (\<forall>j<i. match_here rx (drop j (x # xs)) ([], None) = None)"
        by (intro exI [of _ "Suc i"]) simp
    next
      assume "\<exists>i\<le>length (x # xs). match_here rx (drop i (x # xs)) ([], None) = Some res
          \<and> (\<forall>j<i. match_here rx (drop j (x # xs)) ([], None) = None)"
      then obtain i where i: "i \<le> length (x # xs)"
        "match_here rx (drop i (x # xs)) ([], None) = Some res"
        "\<forall>j<i. match_here rx (drop j (x # xs)) ([], None) = None"
        by blast
      from i(2) None obtain i' where i': "i = Suc i'"
        by (cases i) auto
      have "\<forall>j<i'. match_here rx (drop j xs) ([], None) = None"
      proof (intro allI impI)
        fix j assume "j < i'"
        then have "Suc j < i" by (simp add: i')
        with i(3) have "match_here rx (drop (Suc j) (x # xs)) ([], None) = None" by blast
        then show "match_here rx (drop j xs) ([], None) = None" by simp
      qed
      with i(1,2) i' have "js_search rx xs = Some res"
        unfolding Cons.IH by auto
      with None show "js_search rx (x # xs) = Some res" by simp
    qed
  next
    case (Some r)
    show ?thesis
    proof
      assume "js_search rx (x # xs) = Some res"
      with Some have "match_here rx (drop 0 (x # xs)) ([], None) = Some res" by simp
      then show "\<exists>i\<le>length (x # xs). match_here rx (drop i (x # xs)) ([], None) = Some res
          \<and> (\<forall>j<i. match_here rx (drop j (x # xs)) ([], None) = None)"
        by (intro exI [of _ 0]) simp
    next
      assume "\<exists>i\<le>length (x # xs). match_here rx (drop i (x # xs)) ([], None) = Some res
          \<and> (\<forall>j<i. match_here rx (drop j (x # xs)) ([], None) = None)"
      then obtain i where i: "match_here rx (drop i (x # xs)) ([], None) = Some res"
        "\<forall>j<i. match_here rx (drop j (x # xs)) ([], None) = None"
        by blast
      have "i = 0"
      proof (rule ccontr)
        assume "i \<noteq> 0"
        with i(2) have "match_here rx (drop 0 (x # xs)) ([], None) = None" by blast
        with Some show False by simp
      qed
      with i(1) Some show "js_search rx (x # xs) = Some res" by simp
    qed
  qed
qed

lemma field_at_match:
  assumes k: "\<not> in_cls k 34"
  shows "field_at key k s i v \<longleftrightarrow>
           i \<le> length s \<and> (\<exists>rest. match_here (field_rx key k) (drop i s) ([], None) = Some ([v], rest))"
proof -
  have "(\<exists>occ post. drop i s = occ @ post \<and> is_field key k v occ) \<longleftrightarrow>
          (\<exists>rest. match_here (field_rx key k) (drop i s) ([], None) = Some ([v], rest))"
    unfolding field_here_Some [OF k] by blast
  then show ?thesis
    unfolding field_at_def by simp
qed

lemma no_field_at_match:
  assumes k: "\<not> in_cls k 34" and i: "i \<le> length s"
  shows "(\<forall>u. \<not> field_at key k s i u) \<longleftrightarrow>
           match_here (field_rx key k) (drop i s) ([], None) = None"
proof -
  have "(\<forall>u. \<not> (\<exists>occ post. drop i s = occ @ post \<and> is_field key k u occ)) \<longleftrightarrow>
          match_here (field_rx key k) (drop i s) ([], None) = None"
    unfolding field_here_None [OF k] by blast
  then show ?thesis
    unfolding field_at_def using i by simp
qed

lemma js_match_first_field:
  assumes k: "\<not> in_cls k 34"
  shows "js_match (field_rx key k) s = Some gs \<longleftrightarrow> (\<exists>v. gs = [v] \<and> first_field key k s v)"
proof
  assume "js_match (field_rx key k) s = Some gs"
  then obtain rest where "js_search (field_rx key k) s = Some (gs, rest)"
    by (auto simp: js_match_def)
  then have "\<exists>i\<le>length s. match_here (field_rx key k) (drop i s) ([], None) = Some (gs, rest)
        \<and> (\<forall>j<i. match_here (field_rx key k) (drop j s) ([], None) = None)"
    by (simp only: js_search_first)
  then obtain i where i: "i \<le> length s"
    and m: "match_here (field_rx key k) (drop i s) ([], None) = Some (gs, rest)"
    and n: "\<And>j. j < i \<Longrightarrow> match_here (field_rx key k) (drop j s) ([], None) = None"
    by blast
  from m have "\<exists>v occ. gs = [v] \<and> drop i s = occ @ rest \<and> is_field key k v occ"
    by (simp only: field_here_Some [OF k])
  then obtain v where v: "gs = [v]"
    by blast
  from i m v have f: "field_at key k s i v"
    by (simp only: field_at_match [OF k]) blast
  have "\<not> field_at key k s j u" if j: "j < i" for j u
  proof -
    from j i have l: "j \<le> length s" by simp
    from n [OF j] have "\<forall>u. \<not> field_at key k s j u"
      by (simp only: no_field_at_match [OF k l])
    then show ?thesis by simp
  qed
  with f have "first_field key k s v"
    unfolding first_field_def by blast
  with v show "\<exists>v. gs = [v] \<and> first_field key k s v"
    by simp
next
  assume "\<exists>v. gs = [v] \<and> first_field key k s v"
  then obtain v where v: "gs = [v]" and ff: "first_field key k s v"
    by blast
  from ff obtain i where f: "field_at key k s i v"
    and n: "\<And>j u. j < i \<Longrightarrow> \<not> field_at key k s j u"
    unfolding first_field_def by blast
  from f have i: "i \<le> length s"
    and "\<exists>rest. match_here (field_rx key k) (drop i s) ([], None) = Some ([v], rest)"
    by (simp_all only: field_at_match [OF k])
  then obtain rest where m: "match_here (field_rx key k) (drop i s) ([], None) = Some ([v], rest)"
    by blast
  have "match_here (field_rx key k) (drop j s) ([], None) = None" if j: "j < i" for j
  proof -
    from j i have l: "j \<le> length s" by simp
    from n [OF j] have "\<forall>u. \<not> field_at key k s j u" by simp
    then show ?thesis
      by (simp only: no_field_at_match [OF k l])
  qed
  with i m have "\<exists>i\<le>length s. match_here (field_rx key k) (drop i s) ([], None) = Some ([v], rest)
        \<and> (\<forall>j<i. match_here (field_rx key k) (drop j s) ([], None) = None)"
    by blast
  then have "js_search (field_rx key k) s = Some ([v], rest)"
    by (simp only: js_search_first)
  then show "js_match (field_rx key k) s = Some gs"
    by (simp add: js_match_def v)
qed

lemma js_match_first_fieldI:
  "\<not> in_cls k 34 \<Longrightarrow> first_field key k s v \<Longrightarrow> js_match (field_rx key k) s = Some [v]"
  by (rule iffD2 [OF js_match_first_field]) auto

lemma js_match_first_fieldD:
  "\<not> in_cls k 34 \<Longrightarrow> js_match (field_rx key k) s = Some gs \<Longrightarrow>
   \<exists>v. gs = [v] \<and> first_field key k s v"
  by (rule iffD1 [OF js_match_first_field])

lemma regex_fields:
  "mergedRegex = field_rx ''merged'' Word"
  "loginRegex = field_rx ''login'' (NotChr 34)"
  "idRegex = field_rx ''id'' Digit"
  by (simp_all add: mergedRegex_def loginRegex_def idRegex_def field_rx_def)

lemma field_value:
  assumes k: "\<not> in_cls k 34"
  shows "(case js_match (field_rx key k) s of Some m \<Rightarrow> group 1 m = Some v | None \<Rightarrow> False)
           \<longleftrightarrow> first_field key k s v"
proof (cases "js_match (field_rx key k) s")
  case None
  have "\<not> first_field key k s v"
  proof
    assume "first_field key k s v"
    from js_match_first_fieldI [OF k this] None show False by simp
  qed
  with None show ?thesis by simp
next
  case (Some m)
  from js_match_first_fieldD [OF k Some] obtain u where u: "m = [u]" "first_field key k s u"
    by blast
  have "v = u" if "first_field key k s v"
    using js_match_first_fieldI [OF k that] Some u(1) by simp
  with u Some show ?thesis by auto
qed

lemma fields_agree:
  assumes k: "\<not> in_cls k 34"
  shows "(case (js_match (field_rx key k) s, js_match (field_rx key k) s') of
            (Some m, Some m') \<Rightarrow> group 1 m = group 1 m'
          | _ \<Rightarrow> False)
           \<longleftrightarrow> (\<exists>v. first_field key k s v \<and> first_field key k s' v)"
proof (cases "js_match (field_rx key k) s")
  case None
  have "\<not> first_field key k s v" for v
  proof
    assume "first_field key k s v"
    from js_match_first_fieldI [OF k this] None show False by simp
  qed
  with None show ?thesis by simp
next
  case m: (Some m)
  from js_match_first_fieldD [OF k m] obtain u where u: "m = [u]" "first_field key k s u"
    by blast
  have only: "v = u" if "first_field key k s v" for v
    using js_match_first_fieldI [OF k that] m u(1) by simp
  show ?thesis
  proof (cases "js_match (field_rx key k) s'")
    case None
    have "\<not> first_field key k s' v" for v
    proof
      assume "first_field key k s' v"
      from js_match_first_fieldI [OF k this] None show False by simp
    qed
    with None m show ?thesis by simp
  next
    case m': (Some m')
    from js_match_first_fieldD [OF k m'] obtain u' where u': "m' = [u']" "first_field key k s' u'"
      by blast
    have only': "v = u'" if "first_field key k s' v" for v
      using js_match_first_fieldI [OF k that] m' u'(1) by simp
    have "(u = u') \<longleftrightarrow> (\<exists>v. first_field key k s v \<and> first_field key k s' v)"
      using u(2) u'(2) only only' by blast
    then show ?thesis
      by (simp add: m m' u(1) u'(1))
  qed
qed

lemma field_search_prefix:
  assumes k: "\<not> in_cls k 34" and key: "34 \<notin> set (js key)"
    and m: "js_search (field_rx key k) s = Some (gs, rest)"
    and n: "length s - length rest \<le> n"
  shows "js_match (field_rx key k) (take n s @ t) = Some gs"
proof -
  let ?e = "length s - length rest"
  from js_search_take [OF k m] have "js_search (field_rx key k) (take ?e s) = Some (gs, [])"
    by simp
  from js_search_append [OF k key this, of "drop ?e (take n s) @ t"]
  have "js_search (field_rx key k) (take ?e s @ drop ?e (take n s) @ t) = Some (gs, drop ?e (take n s) @ t)"
    by simp
  moreover have "take ?e s @ drop ?e (take n s) = take n s"
    using n by (metis append_take_drop_id min.absorb1 take_take)
  ultimately have "js_search (field_rx key k) (take n s @ t) = Some (gs, drop ?e (take n s) @ t)"
    by (metis append.assoc)
  then show ?thesis
    by (simp add: js_match_def)
qed

lemma validator_search_prefix:
  assumes rx: "rx \<in> {mergedRegex, loginRegex, idRegex}"
    and m: "js_search rx s = Some (gs, rest)"
    and n: "length s - length rest \<le> n"
  shows "js_match rx (take n s @ t) = Some gs"
proof -
  have w: "\<not> in_cls Word 34" "\<not> in_cls (NotChr 34) 34" "\<not> in_cls Digit 34"
    by simp_all
  have q: "34 \<notin> set (js ''merged'')" "34 \<notin> set (js ''login'')" "34 \<notin> set (js ''id'')"
    by (simp_all add: js_def)
  from rx consider "rx = field_rx ''merged'' Word" | "rx = field_rx ''login'' (NotChr 34)"
    | "rx = field_rx ''id'' Digit"
    by (auto simp: regex_fields)
  then show ?thesis
  proof cases
    case 1
    with field_search_prefix [OF w(1) q(1) _ n] m show ?thesis by simp
  next
    case 2
    with field_search_prefix [OF w(2) q(2) _ n] m show ?thesis by simp
  next
    case 3
    with field_search_prefix [OF w(3) q(3) _ n] m show ?thesis by simp
  qed
qed

lemma validator_match_prefix:
  assumes rx: "rx \<in> {mergedRegex, loginRegex, idRegex}"
    and e: "\<exists>e\<le>n. match_end rx s = Some e"
  shows "js_match rx (take n s @ t) = js_match rx s"
proof -
  from e obtain gs rest where m: "js_search rx s = Some (gs, rest)" and n: "length s - length rest \<le> n"
    by (auto simp: match_end_def split: option.splits)
  from validator_search_prefix [OF rx m n] m show ?thesis
    by (simp add: js_match_def)
qed

section \<open>The verdict\<close>

lemma empty_object_matches:
  "js_match mergedRegex (JSON_stringify (JObject [])) = None"
  "js_match loginRegex (JSON_stringify (JObject [])) = None"
  "js_match idRegex (JSON_stringify (JObject [])) = None"
  by (simp_all add: js_match_def mergedRegex_def loginRegex_def idRegex_def quoted_def lit_def js_def)

lemma verifyProofData_empty_pr:
  "\<not> isMerged (verifyProofData (JSON_stringify (JObject [])) user)"
  "\<not> isValidUser (verifyProofData (JSON_stringify (JObject [])) user)"
  "\<not> isValidId (verifyProofData (JSON_stringify (JObject [])) user)"
  "\<not> isValid (verifyProofData (JSON_stringify (JObject [])) user)"
  unfolding verifyProofData_def empty_object_matches Let_def by simp_all

lemma verifyProofData_empty_user:
  "\<not> isValidUser (verifyProofData pr (JSON_stringify (JObject [])))"
  "\<not> isValidId (verifyProofData pr (JSON_stringify (JObject [])))"
  "\<not> isValid (verifyProofData pr (JSON_stringify (JObject [])))"
  unfolding verifyProofData_def empty_object_matches Let_def by (simp_all split: option.splits)

lemma extract_two_matches:
  "matchAll contextRegex
     (JSON_stringify (JObject [(js ''prProofData'', pr), (js ''userProofData'', user)]))
   = m0 # m1 # ms \<Longrightarrow>
   extractAndVerifyProof rt pr user =
     Inr (verifyProofData (JSON_stringify (parseJSONSafely rt (group 1 m0)))
            (JSON_stringify (parseJSONSafely rt (group 1 m1))))"
  unfolding extractAndVerifyProof_def Let_def by simp

lemma verifyPR_error:
  "verifyPR_try rt out link token s = (Inl e, s') \<Longrightarrow>
   verifyPR rt out link token s = (Inl (Error (js ''zkTLS verification failed: '' @ message e)), s')"
  by (simp add: verifyPR_def)

lemma verdict_fields:
  "isMerged (verifyProofData pr user) \<longleftrightarrow> first_field ''merged'' Word pr (js ''true'')"
  "isValidUser (verifyProofData pr user) \<longleftrightarrow>
     (\<exists>l. first_field ''login'' (NotChr 34) pr l \<and> first_field ''login'' (NotChr 34) user l)"
  "isValidId (verifyProofData pr user) \<longleftrightarrow>
     (\<exists>n. first_field ''id'' Digit pr n \<and> first_field ''id'' Digit user n)"
  "isValid (verifyProofData pr user) \<longleftrightarrow>
     isMerged (verifyProofData pr user) \<and> isValidUser (verifyProofData pr user)
     \<and> isValidId (verifyProofData pr user)"
proof -
  have w: "\<not> in_cls Word 34" and n: "\<not> in_cls (NotChr 34) 34" and d: "\<not> in_cls Digit 34"
    by simp_all
  show "isMerged (verifyProofData pr user) \<longleftrightarrow> first_field ''merged'' Word pr (js ''true'')"
    unfolding field_value [OF w, symmetric] by (simp add: verifyProofData_def Let_def regex_fields)
  show "isValidUser (verifyProofData pr user) \<longleftrightarrow>
        (\<exists>l. first_field ''login'' (NotChr 34) pr l \<and> first_field ''login'' (NotChr 34) user l)"
    unfolding fields_agree [OF n, symmetric] by (simp add: verifyProofData_def Let_def regex_fields)
  show "isValidId (verifyProofData pr user) \<longleftrightarrow>
        (\<exists>n. first_field ''id'' Digit pr n \<and> first_field ''id'' Digit user n)"
    unfolding fields_agree [OF d, symmetric] by (simp add: verifyProofData_def Let_def regex_fields)
  show "isValid (verifyProofData pr user) \<longleftrightarrow>
        isMerged (verifyProofData pr user) \<and> isValidUser (verifyProofData pr user)
        \<and> isValidId (verifyProofData pr user)"
    by (simp add: verifyProofData_def Let_def)
qed

lemma example_verdicts:
  "isValid (verifyProofData (JSON_stringify (example_context ''true'' ''alice'' ''7''))
             (JSON_stringify (example_context ''-'' ''alice'' ''7'')))
   \<and> \<not> isValid (verifyProofData (JSON_stringify (example_context ''false'' ''alice'' ''7''))
             (JSON_stringify (example_context ''-'' ''alice'' ''7'')))
   \<and> \<not> isValid (verifyProofData (JSON_stringify (example_context ''true'' ''alice'' ''7''))
             (JSON_stringify (example_context ''-'' ''bob'' ''7'')))
   \<and> \<not> isValid (verifyProofData (JSON_stringify (example_context ''true'' ''alice'' ''7''))
             (JSON_stringify (example_context ''-'' ''alice'' ''8'')))"
  by (simp add: val_defs)

lemma example_extract:
  "extractAndVerifyProof
     (example_runtime [example_context ''true'' ''alice'' ''7'', example_context ''-'' ''alice'' ''7''])
     (example_subject (example_context ''true'' ''alice'' ''7''))
     (example_subject (example_context ''-'' ''alice'' ''7''))
   = Inr \<lparr>isMerged = True, isValidUser = True, isValidId = True,
          githubUsername = Some (js ''alice''), githubUserId = Some (js ''7''),
          userLogin = Some (js ''alice''), userId = Some (js ''7''), isValid = True\<rparr>"
  by (simp add: val_defs)

lemma example_one_context:
  "length (matchAll contextRegex
     (JSON_stringify (JObject [(js ''prProofData'', example_subject (example_context ''true'' ''alice'' ''7'')),
        (js ''userProofData'', JObject [(js ''id'', JString (js ''7''))])]))) < 2"
  by (simp add: val_defs)

lemma example_search:
  "js_search loginRegex (JSON_stringify (JObject [(js ''login'', JString (js ''eve''))]))
   = Some ([js ''eve''], [125])"
  by (simp add: val_defs)

lemma first_field_unique:
  assumes k: "\<not> in_cls k 34" and a: "first_field key k s v" and b: "first_field key k s u"
  shows "v = u"
  using js_match_first_fieldI [OF k a] js_match_first_fieldI [OF k b] by simp

text \<open>
  C1. The verdict that \<open>verifyProofData\<close> computes from the text of the PR context and the
  text of the user context: \<open>isMerged\<close> holds exactly when the \<^verbatim>\<open>merged\<close> field of the PR
  context has the quoted value \<^verbatim>\<open>true\<close> (so it is false when the PR context has no such
  field, or when its quoted value is another word); \<open>isValidUser\<close> holds exactly when both
  contexts have a quoted \<^verbatim>\<open>login\<close> and the two values are equal; \<open>isValidId\<close> holds exactly
  when both contexts have a quoted numeric \<^verbatim>\<open>id\<close> and the two values are equal; and
  \<open>isValid\<close> is the conjunction of the three. The field of a context is the leftmost
  occurrence of its pattern in the text (\<open>first_field\<close>), and it has one value: if the
  \<^verbatim>\<open>merged\<close> field has the value \<open>v\<close>, \<open>isMerged\<close> says whether \<open>v\<close> is \<^verbatim>\<open>true\<close>. When the
  serialized payload has
  at least two context fragments, the verdict of \<open>extractAndVerifyProof\<close> is this verdict
  for the first fragment as the PR context and the second as the user context, each
  parsed and serialized again.
\<close>

theorem verdict_of_contexts:
  "(isMerged (verifyProofData pr user) \<longleftrightarrow> first_field ''merged'' Word pr (js ''true''))
   \<and> (isValidUser (verifyProofData pr user) \<longleftrightarrow>
        (\<exists>l. first_field ''login'' (NotChr 34) pr l \<and> first_field ''login'' (NotChr 34) user l))
   \<and> (isValidId (verifyProofData pr user) \<longleftrightarrow>
        (\<exists>n. first_field ''id'' Digit pr n \<and> first_field ''id'' Digit user n))
   \<and> (isValid (verifyProofData pr user) \<longleftrightarrow>
        isMerged (verifyProofData pr user) \<and> isValidUser (verifyProofData pr user)
        \<and> isValidId (verifyProofData pr user))
   \<and> (first_field ''merged'' Word pr v \<longrightarrow>
        (isMerged (verifyProofData pr user) \<longleftrightarrow> v = js ''true''))
   \<and> (matchAll contextRegex
         (JSON_stringify
            (JObject [(js ''prProofData'', prProofData), (js ''userProofData'', userProofData)]))
       = m0 # m1 # ms \<longrightarrow>
       extractAndVerifyProof rt prProofData userProofData =
         Inr (verifyProofData (JSON_stringify (parseJSONSafely rt (group 1 m0)))
                (JSON_stringify (parseJSONSafely rt (group 1 m1)))))"
proof (intro conjI impI)
  show "isMerged (verifyProofData pr user) \<longleftrightarrow> first_field ''merged'' Word pr (js ''true'')"
    by (rule verdict_fields(1))
  show "isValidUser (verifyProofData pr user) \<longleftrightarrow>
        (\<exists>l. first_field ''login'' (NotChr 34) pr l \<and> first_field ''login'' (NotChr 34) user l)"
    by (rule verdict_fields(2))
  show "isValidId (verifyProofData pr user) \<longleftrightarrow>
        (\<exists>n. first_field ''id'' Digit pr n \<and> first_field ''id'' Digit user n)"
    by (rule verdict_fields(3))
  show "isValid (verifyProofData pr user) \<longleftrightarrow>
        isMerged (verifyProofData pr user) \<and> isValidUser (verifyProofData pr user)
        \<and> isValidId (verifyProofData pr user)"
    by (rule verdict_fields(4))
next
  assume v: "first_field ''merged'' Word pr v"
  have w: "\<not> in_cls Word 34"
    by simp
  show "isMerged (verifyProofData pr user) \<longleftrightarrow> v = js ''true''"
    unfolding verdict_fields(1) using first_field_unique [OF w v] v by blast
next
  assume "matchAll contextRegex
         (JSON_stringify
            (JObject [(js ''prProofData'', prProofData), (js ''userProofData'', userProofData)]))
       = m0 # m1 # ms"
  then show "extractAndVerifyProof rt prProofData userProofData =
         Inr (verifyProofData (JSON_stringify (parseJSONSafely rt (group 1 m0)))
                (JSON_stringify (parseJSONSafely rt (group 1 m1))))"
    by (rule extract_two_matches)
qed

theorem verdict_of_contexts_witness:
  "first_field ''merged'' Word (JSON_stringify (example_context ''true'' ''alice'' ''7'')) (js ''true'')
   \<and> (\<exists>l. first_field ''login'' (NotChr 34) (JSON_stringify (example_context ''true'' ''alice'' ''7'')) l
          \<and> first_field ''login'' (NotChr 34) (JSON_stringify (example_context ''-'' ''alice'' ''7'')) l)
   \<and> \<not> first_field ''merged'' Word (JSON_stringify (example_context ''false'' ''alice'' ''7'')) (js ''true'')
   \<and> \<not> (\<exists>n. first_field ''id'' Digit (JSON_stringify (example_context ''true'' ''alice'' ''7'')) n
          \<and> first_field ''id'' Digit (JSON_stringify (example_context ''-'' ''alice'' ''8'')) n)
   \<and> extractAndVerifyProof
        (example_runtime [example_context ''true'' ''alice'' ''7'', example_context ''-'' ''alice'' ''7''])
        (example_subject (example_context ''true'' ''alice'' ''7''))
        (example_subject (example_context ''-'' ''alice'' ''7''))
      = Inr (verifyProofData (JSON_stringify (example_context ''true'' ''alice'' ''7''))
               (JSON_stringify (example_context ''-'' ''alice'' ''7'')))"
proof -
  let ?cp = "example_context ''true'' ''alice'' ''7''"
  let ?cu = "example_context ''-'' ''alice'' ''7''"
  let ?pr = "JSON_stringify ?cp"
  let ?user = "JSON_stringify ?cu"
  let ?rt = "example_runtime [?cp, ?cu]"
  have a: "isMerged (verifyProofData ?pr ?user)" "isValidUser (verifyProofData ?pr ?user)"
    by (simp_all add: val_defs)
  have b: "\<not> isMerged (verifyProofData (JSON_stringify (example_context ''false'' ''alice'' ''7'')) ?user)"
    by (simp add: val_defs)
  have c: "\<not> isValidId (verifyProofData ?pr (JSON_stringify (example_context ''-'' ''alice'' ''8'')))"
    by (simp add: val_defs)
  have m: "matchAll contextRegex
             (JSON_stringify
                (JObject [(js ''prProofData'', example_subject ?cp),
                          (js ''userProofData'', example_subject ?cu)]))
           = [quote_units ?pr] # [quote_units ?user] # []"
    by (simp add: val_defs)
  have p: "JSON_stringify (parseJSONSafely ?rt (group 1 [quote_units ?pr])) = ?pr"
    "JSON_stringify (parseJSONSafely ?rt (group 1 [quote_units ?user])) = ?user"
    by (simp_all add: val_defs)
  from a verdict_of_contexts [of ?pr ?user]
  have 1: "first_field ''merged'' Word ?pr (js ''true'')"
    and 2: "\<exists>l. first_field ''login'' (NotChr 34) ?pr l \<and> first_field ''login'' (NotChr 34) ?user l"
    by simp_all
  from b verdict_of_contexts [of "JSON_stringify (example_context ''false'' ''alice'' ''7'')" ?user]
  have 3: "\<not> first_field ''merged'' Word (JSON_stringify (example_context ''false'' ''alice'' ''7'')) (js ''true'')"
    by simp
  from c verdict_of_contexts [of ?pr "JSON_stringify (example_context ''-'' ''alice'' ''8'')"]
  have 4: "\<not> (\<exists>n. first_field ''id'' Digit ?pr n
          \<and> first_field ''id'' Digit (JSON_stringify (example_context ''-'' ''alice'' ''8'')) n)"
    by simp
  from verdict_of_contexts [THEN conjunct2, THEN conjunct2, THEN conjunct2, THEN conjunct2, THEN conjunct2,
      THEN mp, OF m, of ?rt]
  have 5: "extractAndVerifyProof ?rt (example_subject ?cp) (example_subject ?cu)
      = Inr (verifyProofData ?pr ?user)"
    unfolding p .
  from 1 2 3 4 5 show ?thesis by simp
qed

text \<open>
  C9. For each of the three patterns (\<^verbatim>\<open>merged\<close>, \<^verbatim>\<open>login\<close>, \<^verbatim>\<open>id\<close>) the match that the
  validator reads is decided by the text up to the end of the first occurrence: if the
  search in \<open>s\<close> finds a match that ends at or before position \<open>n\<close>, then the search in
  the first \<open>n\<close> characters of \<open>s\<close> followed by any text \<open>t\<close> finds the same groups. So
  the verdict is the same for any two PR contexts and any two user contexts that agree
  up to the ends of the first occurrences: what follows them, further \<^verbatim>\<open>login\<close> or \<^verbatim>\<open>id\<close>
  fields included, is not read.
\<close>

theorem first_occurrence_decides:
  "(rx \<in> {mergedRegex, loginRegex, idRegex} \<longrightarrow> js_search rx s = Some (gs, rest) \<longrightarrow>
      length s - length rest \<le> n \<longrightarrow> js_match rx (take n s @ t) = Some gs)
   \<and> ((\<forall>rx\<in>{mergedRegex, loginRegex, idRegex}. \<exists>e\<le>n. match_end rx pr = Some e)
        \<and> (\<forall>rx\<in>{loginRegex, idRegex}. \<exists>e\<le>n'. match_end rx user = Some e) \<longrightarrow>
      verifyProofData (take n pr @ t) (take n' user @ t') = verifyProofData pr user)"
proof (intro conjI impI)
  assume "rx \<in> {mergedRegex, loginRegex, idRegex}" "js_search rx s = Some (gs, rest)"
    "length s - length rest \<le> n"
  then show "js_match rx (take n s @ t) = Some gs"
    by (rule validator_search_prefix)
next
  assume a: "(\<forall>rx\<in>{mergedRegex, loginRegex, idRegex}. \<exists>e\<le>n. match_end rx pr = Some e)
        \<and> (\<forall>rx\<in>{loginRegex, idRegex}. \<exists>e\<le>n'. match_end rx user = Some e)"
  then have "js_match mergedRegex (take n pr @ t) = js_match mergedRegex pr"
    "js_match loginRegex (take n pr @ t) = js_match loginRegex pr"
    "js_match idRegex (take n pr @ t) = js_match idRegex pr"
    "js_match loginRegex (take n' user @ t') = js_match loginRegex user"
    "js_match idRegex (take n' user @ t') = js_match idRegex user"
    by (simp_all add: validator_match_prefix)
  then show "verifyProofData (take n pr @ t) (take n' user @ t') = verifyProofData pr user"
    by (simp add: verifyProofData_def)
qed

theorem first_occurrence_decides_witness:
  "js_match loginRegex
     (JSON_stringify (JObject [(js ''login'', JString (js ''eve''))])
      @ JSON_stringify (JObject [(js ''login'', JString (js ''alice''))]))
   = Some [js ''eve'']
   \<and> verifyProofData
        (JSON_stringify (example_context ''true'' ''eve'' ''7'')
         @ JSON_stringify (example_context ''true'' ''alice'' ''9''))
        (JSON_stringify (example_context ''-'' ''eve'' ''7''))
      = verifyProofData (JSON_stringify (example_context ''true'' ''eve'' ''7''))
          (JSON_stringify (example_context ''-'' ''eve'' ''7''))"
proof -
  let ?s = "JSON_stringify (JObject [(js ''login'', JString (js ''eve''))])"
  let ?pr = "JSON_stringify (example_context ''true'' ''eve'' ''7'')"
  let ?user = "JSON_stringify (example_context ''-'' ''eve'' ''7'')"
  have r: "loginRegex \<in> {mergedRegex, loginRegex, idRegex}"
    by simp
  have n: "length ?s - length [125 :: nat] \<le> length ?s"
    by simp
  from first_occurrence_decides [THEN conjunct1, rule_format, OF r example_search n]
  have "js_match loginRegex
          (take (length ?s) ?s @ JSON_stringify (JObject [(js ''login'', JString (js ''alice''))]))
        = Some [js ''eve'']" .
  then have 1: "js_match loginRegex
     (?s @ JSON_stringify (JObject [(js ''login'', JString (js ''alice''))])) = Some [js ''eve'']"
    by simp
  have e: "(\<forall>rx\<in>{mergedRegex, loginRegex, idRegex}. \<exists>e\<le>length ?pr. match_end rx ?pr = Some e)
        \<and> (\<forall>rx\<in>{loginRegex, idRegex}. \<exists>e\<le>length ?user. match_end rx ?user = Some e)"
    by (simp add: match_end_def val_defs)
  from first_occurrence_decides [THEN conjunct2, THEN mp, OF e,
      of "JSON_stringify (example_context ''true'' ''alice'' ''9'')" "[]"]
  have 2: "verifyProofData (?pr @ JSON_stringify (example_context ''true'' ''alice'' ''9'')) ?user
      = verifyProofData ?pr ?user"
    by simp
  from 1 2 show ?thesis by simp
qed

section \<open>Extraction\<close>

text \<open>
  A match of the context pattern is not empty, so \<open>matchAll\<close> is the leftmost search
  repeated, each time in the text after the last match.
\<close>

lemma match_here_rest: "match_here rx s st = Some (gs, rest) \<Longrightarrow> length rest \<le> length s"
proof (induction rx s st arbitrary: gs rest rule: match_here.induct)
  case (1 s st)
  then show ?case by simp
next
  case (2 r s st)
  then show ?case by simp
next
  case (3 r s st)
  then show ?case by simp
next
  case (4 c r st)
  then show ?case by simp
next
  case (5 c r x xs st)
  then show ?case by (auto split: if_splits dest: le_SucI)
next
  case (6 k r st)
  then show ?case by simp
next
  case (7 k r x xs st)
  then show ?case by (auto split: if_splits option.splits dest: le_SucI)
next
  case (8 k r st)
  then show ?case by simp
next
  case (9 k r x xs st)
  then show ?case by (auto split: if_splits dest: le_SucI)
next
  case (10 k r st)
  then show ?case by simp
next
  case (11 k r x xs st)
  then show ?case by (auto split: if_splits option.splits dest: le_SucI)
qed

lemma context_match_shorter:
  assumes "match_here contextRegex s ([], None) = Some (gs, rest)"
  shows "length rest < length s"
proof (cases s)
  case Nil
  with assms show ?thesis by (simp add: contextRegex_def quoted_def lit_def js_def)
next
  case (Cons x xs)
  with assms obtain r where "contextRegex = Chr 34 # r"
    "match_here r xs ([], None) = Some (gs, rest)"
    by (auto simp: contextRegex_def quoted_def lit_def js_def split: if_splits)
  from match_here_rest [OF this(2)] Cons show ?thesis by simp
qed

lemma matchAll_context:
  "matchAll contextRegex s =
     (case js_search contextRegex s of
        None \<Rightarrow> []
      | Some (gs, rest) \<Rightarrow> gs # matchAll contextRegex rest)"
proof (induction s)
  case Nil
  then show ?case
    using context_match_shorter [of "[]"] by (auto split: option.splits)
next
  case (Cons x xs)
  then show ?case
    using context_match_shorter [of "x # xs"] by (auto split: option.splits)
qed

lemma fewer_than_two_matches:
  "length (matchAll contextRegex s) < 2 \<longleftrightarrow>
     (js_search contextRegex s = None
      \<or> (\<exists>gs rest. js_search contextRegex s = Some (gs, rest) \<and> js_search contextRegex rest = None))"
proof (cases "js_search contextRegex s")
  case None
  then show ?thesis by (subst matchAll_context) simp
next
  case (Some res)
  obtain gs rest where res: "res = (gs, rest)" by (cases res)
  have "length (matchAll contextRegex s) < 2 \<longleftrightarrow> matchAll contextRegex rest = []"
    by (subst matchAll_context) (simp add: Some res)
  also have "\<dots> \<longleftrightarrow> js_search contextRegex rest = None"
    by (subst matchAll_context) (simp split: option.splits)
  finally show ?thesis by (simp add: Some res)
qed

text \<open>
  C4. A text holds fewer than two matches of the context pattern exactly when the
  leftmost search finds no match in it, or finds one and none in the text after it. When
  the serialized payload holds fewer than two matches, \<open>extractAndVerifyProof\<close> throws the
  error \<^verbatim>\<open>Could not extract context from proof data\<close>, and a \<open>verifyPR\<close> that received
  this payload from the proof service throws an error: it returns no verdict, so none
  with \<open>isValid\<close> true.
\<close>

theorem too_few_contexts:
  "(length (matchAll contextRegex str) < 2 \<longleftrightarrow>
      (js_search contextRegex str = None
       \<or> (\<exists>gs rest. js_search contextRegex str = Some (gs, rest)
             \<and> js_search contextRegex rest = None)))
   \<and> (length (matchAll contextRegex
                 (JSON_stringify (JObject [(js ''prProofData'', pr), (js ''userProofData'', user)]))) < 2
       \<longrightarrow>
       extractAndVerifyProof rt pr user = Inl (Error (js ''Could not extract context from proof data''))
       \<and> (callZKTLSAPI rt out link token s = (Inr (pr, user), s') \<longrightarrow>
            (\<exists>e. fst (verifyPR rt out link token s) = Inl e)))"
proof (intro conjI impI)
  show "length (matchAll contextRegex str) < 2 \<longleftrightarrow>
      (js_search contextRegex str = None
       \<or> (\<exists>gs rest. js_search contextRegex str = Some (gs, rest)
             \<and> js_search contextRegex rest = None))"
    by (rule fewer_than_two_matches)
next
  assume l: "length (matchAll contextRegex
             (JSON_stringify (JObject [(js ''prProofData'', pr), (js ''userProofData'', user)]))) < 2"
  then show x: "extractAndVerifyProof rt pr user = Inl (Error (js ''Could not extract context from proof data''))"
    by (simp add: extractAndVerifyProof_def Let_def)
  assume c: "callZKTLSAPI rt out link token s = (Inr (pr, user), s')"
  show "\<exists>e. fst (verifyPR rt out link token s) = Inl e"
  proof (cases "validatePRLink link")
    case (Inl e)
    then have "verifyPR_try rt out link token s = (Inl e, s)"
      by (simp add: verifyPR_try_def)
    from verifyPR_error [OF this] show ?thesis by simp
  next
    case (Inr m)
    with c x have "verifyPR_try rt out link token s
        = (Inl (Error (js ''Could not extract context from proof data'')), s')"
      by (simp add: verifyPR_try_def)
    from verifyPR_error [OF this] show ?thesis by simp
  qed
qed

theorem too_few_contexts_witness:
  "extractAndVerifyProof (example_runtime [])
     (example_subject (example_context ''true'' ''alice'' ''7''))
     (JObject [(js ''id'', JString (js ''7''))])
   = Inl (Error (js ''Could not extract context from proof data''))"
  using too_few_contexts [THEN conjunct2, THEN mp, OF example_one_context, THEN conjunct1] .

lemma unparsable_empty: "unparsable rt m \<Longrightarrow> parseJSONSafely rt (group 1 m) = JObject []"
  by (auto simp: unparsable_def parseJSONSafely_def)

text \<open>
  C7. When the text of a fragment, with its escaped quotes replaced, does not parse as
  JSON, \<open>parseJSONSafely\<close> returns the empty object instead of throwing. With at least
  two fragments the decision still returns a verdict. If the first fragment (the PR
  context) is unparsable, \<open>isMerged\<close>, \<open>isValidUser\<close> and \<open>isValidId\<close> are false; if the
  second (the user context) is, \<open>isValidUser\<close> and \<open>isValidId\<close> are false; in both cases
  \<open>isValid\<close> is false.
\<close>

theorem unparsable_context_degrades:
  "(JSON_parse rt (js_replace_all escapedQuoteRegex [34] fragment) = None \<longrightarrow>
      parseJSONSafely rt (Some fragment) = JObject [])
   \<and> (matchAll contextRegex
         (JSON_stringify (JObject [(js ''prProofData'', pr), (js ''userProofData'', user)]))
       = m0 # m1 # ms \<longrightarrow>
       (\<exists>V. extractAndVerifyProof rt pr user = Inr V
          \<and> (unparsable rt m0 \<longrightarrow>
               \<not> isMerged V \<and> \<not> isValidUser V \<and> \<not> isValidId V \<and> \<not> isValid V)
          \<and> (unparsable rt m1 \<longrightarrow>
               \<not> isValidUser V \<and> \<not> isValidId V \<and> \<not> isValid V)))"
proof (intro conjI impI)
  assume "JSON_parse rt (js_replace_all escapedQuoteRegex [34] fragment) = None"
  then show "parseJSONSafely rt (Some fragment) = JObject []"
    by (simp add: parseJSONSafely_def)
next
  assume m: "matchAll contextRegex
         (JSON_stringify (JObject [(js ''prProofData'', pr), (js ''userProofData'', user)]))
       = m0 # m1 # ms"
  let ?V = "verifyProofData (JSON_stringify (parseJSONSafely rt (group 1 m0)))
            (JSON_stringify (parseJSONSafely rt (group 1 m1)))"
  have "extractAndVerifyProof rt pr user = Inr ?V"
    by (rule extract_two_matches [OF m])
  moreover have "\<not> isMerged ?V \<and> \<not> isValidUser ?V \<and> \<not> isValidId ?V \<and> \<not> isValid ?V"
    if "unparsable rt m0"
    unfolding unparsable_empty [OF that] using verifyProofData_empty_pr by blast
  moreover have "\<not> isValidUser ?V \<and> \<not> isValidId ?V \<and> \<not> isValid ?V"
    if "unparsable rt m1"
    unfolding unparsable_empty [OF that] using verifyProofData_empty_user by blast
  ultimately show "\<exists>V. extractAndVerifyProof rt pr user = Inr V
          \<and> (unparsable rt m0 \<longrightarrow>
               \<not> isMerged V \<and> \<not> isValidUser V \<and> \<not> isValidId V \<and> \<not> isValid V)
          \<and> (unparsable rt m1 \<longrightarrow>
               \<not> isValidUser V \<and> \<not> isValidId V \<and> \<not> isValid V)"
    by blast
qed

theorem unparsable_context_degrades_witness:
  "parseJSONSafely (example_runtime []) (Some (js ''{oops}'')) = JObject []
   \<and> (\<exists>V. extractAndVerifyProof (example_runtime [])
          (example_subject (example_context ''true'' ''alice'' ''7''))
          (example_subject (example_context ''-'' ''alice'' ''7'')) = Inr V
      \<and> \<not> isMerged V \<and> \<not> isValidUser V \<and> \<not> isValidId V \<and> \<not> isValid V)"
proof -
  let ?pr = "example_context ''true'' ''alice'' ''7''"
  let ?user = "example_context ''-'' ''alice'' ''7''"
  have f: "JSON_parse (example_runtime []) (js_replace_all escapedQuoteRegex [34] (js ''{oops}'')) = None"
    by (simp add: example_runtime_def)
  have m: "matchAll contextRegex
             (JSON_stringify
                (JObject [(js ''prProofData'', example_subject ?pr),
                          (js ''userProofData'', example_subject ?user)]))
           = [quote_units (JSON_stringify ?pr)] # [quote_units (JSON_stringify ?user)] # []"
    by (simp add: val_defs)
  have p: "unparsable (example_runtime []) [quote_units (JSON_stringify ?pr)]"
    by (simp add: unparsable_def example_runtime_def)
  from unparsable_context_degrades [THEN conjunct1, THEN mp, OF f]
  have 1: "parseJSONSafely (example_runtime []) (Some (js ''{oops}'')) = JObject []" .
  from unparsable_context_degrades [THEN conjunct2, THEN mp, OF m, of "example_runtime []"] p
  have 2: "\<exists>V. extractAndVerifyProof (example_runtime [])
          (example_subject ?pr) (example_subject ?user) = Inr V
      \<and> \<not> isMerged V \<and> \<not> isValidUser V \<and> \<not> isValidId V \<and> \<not> isValid V"
    by blast
  from 1 2 show ?thesis by simp
qed

section \<open>Failing closed\<close>

lemma callZKTLSAPI_cases:
  "callZKTLSAPI rt out link token s = (r, s') \<Longrightarrow>
   (case r of
      Inl e \<Rightarrow>
        proof_response rt out link token (world s) = Inl e
        \<or> (\<exists>data. proof_response rt out link token (world s) = Inr data
              \<and> (falsy (get_prop data (js ''prProofData''))
                  \<or> falsy (get_prop data (js ''userProofData''))))
    | Inr (prProofData, userProofData) \<Rightarrow>
        (\<exists>data. proof_response rt out link token (world s) = Inr data
           \<and> get_prop data (js ''prProofData'') = Some prProofData
           \<and> get_prop data (js ''userProofData'') = Some userProofData
           \<and> \<not> falsy (Some prProofData) \<and> \<not> falsy (Some userProofData)))"
  by (auto simp: callZKTLSAPI_def call_def Let_def proof_response_def
           split: prod.splits sum.splits json.splits option.splits if_splits)

lemma verifyPR_Inr:
  "verifyPR rt out link token s = (Inr r, s') \<Longrightarrow>
   \<exists>m prProofData userProofData V.
     validatePRLink link = Inr m
     \<and> callZKTLSAPI rt out link token s = (Inr (prProofData, userProofData), s')
     \<and> extractAndVerifyProof rt prProofData userProofData = Inr V
     \<and> res_isValid r = isValid V"
  by (auto simp: verifyPR_def verifyPR_try_def split: prod.splits sum.splits)

lemma verification_fails_Inl:
  assumes "verification_fails rt out link token (world s)"
  shows "\<exists>e. fst (verifyPR rt out link token s) = Inl e"
proof (cases "verifyPR rt out link token s")
  case (Pair r s')
  show ?thesis
  proof (cases r)
    case (Inl e)
    with Pair show ?thesis by simp
  next
    case (Inr res)
    with Pair verifyPR_Inr obtain m prProofData userProofData V where
      v: "validatePRLink link = Inr m"
      and c: "callZKTLSAPI rt out link token s = (Inr (prProofData, userProofData), s')"
      and x: "extractAndVerifyProof rt prProofData userProofData = Inr V"
      by blast
    from callZKTLSAPI_cases [OF c] obtain data where
      "proof_response rt out link token (world s) = Inr data"
      "get_prop data (js ''prProofData'') = Some prProofData"
      "get_prop data (js ''userProofData'') = Some userProofData"
      "\<not> falsy (Some prProofData)" "\<not> falsy (Some userProofData)"
      by auto
    with assms v x have False
      by (auto simp: verification_fails_def)
    then show ?thesis ..
  qed
qed

lemma calls_getTask': "getTask out taskId s = (r, s') \<Longrightarrow> calls s' = calls s @ [CallGetTask taskId]"
  by (auto simp: getTask_def call_def split: prod.splits option.splits)

lemma processTask_fallback_free:
  "filter is_fallback (calls (snd (processTask rt out taskId s))) = filter is_fallback (calls s)"
  by (auto simp: processTask_def processTask_try_def split: prod.splits sum.splits
           dest!: calls_getTask' calls_getAccessToken calls_verifyPR calls_submit)

lemma processTask_failed_verification:
  assumes g: "taskId \<notin> processingTasks s"
    and t: "getTask out taskId (s\<lparr>processingTasks := insert taskId (processingTasks s)\<rparr>) = (Inr t, s1)"
    and a: "getAccessToken out t s1 = (Inr token, s2)"
    and v: "fst (verifyPR rt out (prLink t) token s2) = Inl e"
  shows "fst (processTask rt out taskId s) = Inl e"
    and "filter is_submission (calls (snd (processTask rt out taskId s))) = filter is_submission (calls s)"
proof -
  obtain s3 where v': "verifyPR rt out (prLink t) token s2 = (Inl e, s3)"
    using v by (cases "verifyPR rt out (prLink t) token s2") auto
  from g t a v' have p: "processTask rt out taskId s
      = (Inl e, s3\<lparr>processingTasks := processingTasks s3 - {taskId}\<rparr>)"
    by (simp add: processTask_def processTask_try_def)
  then show "fst (processTask rt out taskId s) = Inl e" by simp
  from calls_getTask' [OF t] calls_getAccessToken [OF a] calls_verifyPR [OF v'] p
  show "filter is_submission (calls (snd (processTask rt out taskId s))) = filter is_submission (calls s)"
    by auto
qed

text \<open>
  A verification that succeeds, and the whole of \<open>processTask\<close> on a task assigned to
  this operator: the task is read, the claim is read, the proof is requested, and the
  verdict is submitted.
\<close>

lemma example_verified:
  "\<exists>zkProof.
     verifyPR
       (example_runtime [example_context ''true'' ''bob'' ''42'', example_context ''-'' ''bob'' ''42''])
       (example_world (Inr ())
          (Inr (example_payload (example_context ''true'' ''bob'' ''42'')
                  (example_context ''-'' ''bob'' ''42''))))
       (js ''https://github.com/o/r/pull/5'') (js ''tok'') (start_state [])
     = (Inr \<lparr>res_isValid = True, res_zkProof = zkProof,
             metadata = Some \<lparr>md_isMerged = True, md_isValidUser = True, md_isValidId = True,
                              md_githubUsername = Some (js ''bob''),
                              md_githubUserId = Some (js ''42'')\<rparr>\<rparr>,
        \<lparr>processingTasks = {}, world = [],
         calls = [CallGenerateProof (js ''https://github.com/o/r/pull/5'') (js ''tok'')]\<rparr>)"
  by (simp add: run_defs ex_defs val_defs)

lemma example_processTask:
  "\<exists>zkProof.
     processTask
       (example_runtime [example_context ''true'' ''bob'' ''42'', example_context ''-'' ''bob'' ''42''])
       (example_world (Inr ())
          (Inr (example_payload (example_context ''true'' ''bob'' ''42'')
                  (example_context ''-'' ''bob'' ''42''))))
       1 (start_state [Settles 5 (Inr (example_task ASSIGNED (js ''0xAb'')))])
     = (Inr (),
        \<lparr>processingTasks = {}, world = [],
         calls = [CallGetTask 1, CallClaims 3 0,
                  CallGenerateProof (js ''https://github.com/o/r/pull/5'') (js ''tok''),
                  CallSubmitValidation 1 True zkProof]\<rparr>)"
  by (simp add: run_defs ex_defs val_defs)

text \<open>
  C2. If a step of \<open>verifyPR\<close> fails (the PR link is invalid, the call of the proof service
  fails, the response lacks \<^verbatim>\<open>prProofData\<close> or \<^verbatim>\<open>userProofData\<close>, or the extraction fails),
  \<open>verifyPR\<close> throws an error. When \<open>verifyPR\<close> returns a result, no step has failed and
  its \<open>isValid\<close> is the one of the verdict computed from the two proof subjects of the
  response; so no failure gives a result, with \<open>isValid\<close> true or not. When the
  verification fails inside \<open>processTask\<close>, \<open>processTask\<close> throws and has submitted no
  validation; and \<open>processTask\<close> never calls the GitHub API, which only the fallback
  verification does.
\<close>

theorem verification_fails_closed:
  "(verification_fails rt out link token (world s) \<longrightarrow>
      (\<exists>e. fst (verifyPR rt out link token s) = Inl e))
   \<and> (verifyPR rt out link token s = (Inr r, s') \<longrightarrow>
        \<not> verification_fails rt out link token (world s)
        \<and> (\<exists>prProofData userProofData V.
              callZKTLSAPI rt out link token s = (Inr (prProofData, userProofData), s')
              \<and> extractAndVerifyProof rt prProofData userProofData = Inr V
              \<and> res_isValid r = isValid V))
   \<and> (taskId \<notin> processingTasks s0
        \<and> getTask out taskId (s0\<lparr>processingTasks := insert taskId (processingTasks s0)\<rparr>) = (Inr t, s1)
        \<and> getAccessToken out t s1 = (Inr tok, s2)
        \<and> verification_fails rt out (prLink t) tok (world s2) \<longrightarrow>
        (\<exists>e. fst (processTask rt out taskId s0) = Inl e)
        \<and> filter is_submission (calls (snd (processTask rt out taskId s0)))
            = filter is_submission (calls s0))
   \<and> filter is_fallback (calls (snd (processTask rt out taskId s0))) = filter is_fallback (calls s0)"
proof (intro conjI impI)
  assume "verification_fails rt out link token (world s)"
  then show "\<exists>e. fst (verifyPR rt out link token s) = Inl e"
    by (rule verification_fails_Inl)
next
  assume v: "verifyPR rt out link token s = (Inr r, s')"
  show "\<not> verification_fails rt out link token (world s)"
  proof
    assume "verification_fails rt out link token (world s)"
    from verification_fails_Inl [OF this] v show False by simp
  qed
  from verifyPR_Inr [OF v]
  show "\<exists>prProofData userProofData V.
          callZKTLSAPI rt out link token s = (Inr (prProofData, userProofData), s')
          \<and> extractAndVerifyProof rt prProofData userProofData = Inr V
          \<and> res_isValid r = isValid V"
    by blast
next
  assume a: "taskId \<notin> processingTasks s0
        \<and> getTask out taskId (s0\<lparr>processingTasks := insert taskId (processingTasks s0)\<rparr>) = (Inr t, s1)
        \<and> getAccessToken out t s1 = (Inr tok, s2)
        \<and> verification_fails rt out (prLink t) tok (world s2)"
  then obtain e where e: "fst (verifyPR rt out (prLink t) tok s2) = Inl e"
    using verification_fails_Inl by blast
  from a processTask_failed_verification(1) [OF _ _ _ e]
  show "\<exists>e. fst (processTask rt out taskId s0) = Inl e"
    by blast
  from a processTask_failed_verification(2) [OF _ _ _ e]
  show "filter is_submission (calls (snd (processTask rt out taskId s0)))
            = filter is_submission (calls s0)"
    by blast
next
  show "filter is_fallback (calls (snd (processTask rt out taskId s0))) = filter is_fallback (calls s0)"
    by (rule processTask_fallback_free)
qed

theorem verification_fails_closed_witness:
  "(\<exists>e. fst (verifyPR (example_runtime []) (example_world (Inr ()) (Inl (Error (js ''timeout''))))
            (js ''https://github.com/o/r/pull/5'') (js ''tok'') (start_state [])) = Inl e)
   \<and> (\<exists>e. fst (processTask (example_runtime []) (example_world (Inr ()) (Inl (Error (js ''timeout'')))) 1
                 (start_state [Settles 5 (Inr (example_task ASSIGNED (js ''0xAb'')))])) = Inl e)
   \<and> filter is_submission
        (calls (snd (processTask (example_runtime []) (example_world (Inr ()) (Inl (Error (js ''timeout'')))) 1
                       (start_state [Settles 5 (Inr (example_task ASSIGNED (js ''0xAb'')))])))) = []
   \<and> \<not> verification_fails
          (example_runtime [example_context ''true'' ''bob'' ''42'', example_context ''-'' ''bob'' ''42''])
          (example_world (Inr ())
             (Inr (example_payload (example_context ''true'' ''bob'' ''42'')
                     (example_context ''-'' ''bob'' ''42''))))
          (js ''https://github.com/o/r/pull/5'') (js ''tok'') []"
proof -
  let ?rt = "example_runtime []"
  let ?out = "example_world (Inr ()) (Inl (Error (js ''timeout'')))"
  let ?t = "example_task ASSIGNED (js ''0xAb'')"
  let ?start = "start_state [Settles 5 (Inr ?t)]"
  let ?read = "\<lparr>processingTasks = {1}, world = [] :: task promise list, calls = [CallGetTask 1]\<rparr>"
  let ?claimed = "\<lparr>processingTasks = {1}, world = [] :: task promise list,
              calls = [CallGetTask 1, CallClaims 3 0]\<rparr>"
  have f: "verification_fails ?rt ?out link (js ''tok'') w" for link and w :: "task promise list"
    by (simp add: verification_fails_def proof_response_def example_world_def)
  have g: "1 \<notin> processingTasks ?start"
    by (simp add: start_state_def)
  have t: "getTask ?out 1 (?start\<lparr>processingTasks := insert 1 (processingTasks ?start)\<rparr>) = (Inr ?t, ?read)"
    by (simp add: ex_defs)
  have a: "getAccessToken ?out ?t ?read = (Inr (js ''tok''), ?claimed)"
    by (simp add: getAccessToken_def getClaim_def ex_defs)
  from verification_fails_closed [THEN conjunct1, THEN mp, OF f]
  have 1: "\<exists>e. fst (verifyPR ?rt ?out (js ''https://github.com/o/r/pull/5'') (js ''tok'') (start_state [])) = Inl e" .
  have h: "1 \<notin> processingTasks ?start
        \<and> getTask ?out 1 (?start\<lparr>processingTasks := insert 1 (processingTasks ?start)\<rparr>) = (Inr ?t, ?read)
        \<and> getAccessToken ?out ?t ?read = (Inr (js ''tok''), ?claimed)
        \<and> verification_fails ?rt ?out (prLink ?t) (js ''tok'') (world ?claimed)"
    using g t a f by blast
  from verification_fails_closed [THEN conjunct2, THEN conjunct2, THEN conjunct1, THEN mp, OF h]
  have 2: "(\<exists>e. fst (processTask ?rt ?out 1 ?start) = Inl e)
        \<and> filter is_submission (calls (snd (processTask ?rt ?out 1 ?start))) = filter is_submission (calls ?start)" .
  from example_verified obtain zkProof verdict where
    v: "verifyPR
          (example_runtime [example_context ''true'' ''bob'' ''42'', example_context ''-'' ''bob'' ''42''])
          (example_world (Inr ())
             (Inr (example_payload (example_context ''true'' ''bob'' ''42'')
                     (example_context ''-'' ''bob'' ''42''))))
          (js ''https://github.com/o/r/pull/5'') (js ''tok'') (start_state [])
        = (Inr \<lparr>res_isValid = True, res_zkProof = zkProof, metadata = verdict\<rparr>,
           \<lparr>processingTasks = {}, world = [],
            calls = [CallGenerateProof (js ''https://github.com/o/r/pull/5'') (js ''tok'')]\<rparr>)"
    by blast
  from verification_fails_closed [THEN conjunct2, THEN conjunct1, THEN mp, OF v]
  have 3: "\<not> verification_fails
          (example_runtime [example_context ''true'' ''bob'' ''42'', example_context ''-'' ''bob'' ''42''])
          (example_world (Inr ())
             (Inr (example_payload (example_context ''true'' ''bob'' ''42'')
                     (example_context ''-'' ''bob'' ''42''))))
          (js ''https://github.com/o/r/pull/5'') (js ''tok'') (world (start_state []))"
    by blast
  from 1 2 3 show ?thesis
    by (simp add: start_state_def)
qed

section \<open>The guard set\<close>

lemma resume_kinds:
  assumes "resume rt out taskId a s = (a', s')"
  shows "(in_flight a' = in_flight a \<and> processingTasks s' = processingTasks s
          \<and> (a = NotStarted \<longrightarrow> taskId \<in> processingTasks s))
       \<or> (a = NotStarted \<and> in_flight a' \<and> taskId \<notin> processingTasks s
          \<and> processingTasks s' = insert taskId (processingTasks s))
       \<or> (in_flight a \<and> \<not> in_flight a' \<and> processingTasks s' = processingTasks s - {taskId})"
proof (cases a)
  case NotStarted
  with assms show ?thesis by (auto split: if_splits)
next
  case AwaitingTask
  with assms show ?thesis
    by (auto simp: release_def split: prod.splits sum.splits dest: guard_getTask)
next
  case (AwaitingToken t)
  with assms show ?thesis
    by (auto simp: release_def split: prod.splits sum.splits dest: guard_getAccessToken)
next
  case (AwaitingVerdict t token)
  with assms show ?thesis
    by (auto simp: release_def split: prod.splits sum.splits dest: guard_verifyPR)
next
  case (AwaitingReceipt valid zkProof)
  with assms show ?thesis
    by (auto simp: release_def split: prod.splits dest: guard_submit)
next
  case (Returned r)
  with assms show ?thesis by auto
qed

lemma filter_update_count:
  "i < length xs \<Longrightarrow>
   length (filter Q (xs[i := y])) + (if Q (xs ! i) then 1 else 0)
   = length (filter Q xs) + (if Q y then 1 else 0)"
proof (induction xs arbitrary: i)
  case Nil
  then show ?case by simp
next
  case (Cons x xs)
  then show ?case by (cases i) auto
qed

lemma step_guard_ok:
  assumes inv: "guard_ok c"
  shows "guard_ok (step rt out i c)"
proof (cases c)
  case (Pair attempts s)
  show ?thesis
  proof (cases "i < length attempts")
    case False
    with Pair inv show ?thesis by (simp add: step_def)
  next
    case True
    obtain taskId a where at: "attempts ! i = (taskId, a)" by (cases "attempts ! i")
    obtain a' s' where r: "resume rt out taskId a s = (a', s')" by (cases "resume rt out taskId a s")
    from Pair True at r have st: "step rt out i c = (attempts[i := (taskId, a')], s')"
      by (simp add: step_def)
    have cnt: "in_flight_count k (attempts[i := (taskId, a')])
                + (if taskId = k \<and> in_flight a then 1 else 0)
               = in_flight_count k attempts + (if taskId = k \<and> in_flight a' then 1 else 0)" for k
      using filter_update_count [OF True, of "\<lambda>x. fst x = k \<and> in_flight (snd x)" "(taskId, a')"] at
      by (simp add: in_flight_count_def)
    from inv Pair have old: "in_flight_count k attempts = (if k \<in> processingTasks s then 1 else 0)" for k
      by (simp add: guard_ok_def)
    have "in_flight_count k (attempts[i := (taskId, a')]) = (if k \<in> processingTasks s' then 1 else 0)" for k
      using resume_kinds [OF r] cnt [of k] old [of k] old [of taskId]
      by (auto split: if_splits)
    with st show ?thesis by (simp add: guard_ok_def)
  qed
qed

lemma run_guard_ok: "guard_ok c \<Longrightarrow> guard_ok (run rt out schedule c)"
  by (induction schedule arbitrary: c) (simp_all add: step_guard_ok)

lemma initial_guard_ok:
  assumes "processingTasks s = {}" and "\<forall>x\<in>set attempts. snd x = NotStarted"
  shows "guard_ok (attempts, s)"
proof -
  have "filter (\<lambda>x. fst x = k \<and> in_flight (snd x)) attempts = []" for k
    using assms(2) by (induction attempts) auto
  with assms(1) show ?thesis by (simp add: guard_ok_def in_flight_count_def)
qed

lemma processTask_run:
  "run rt out [0, 0, 0, 0, 0] ([(taskId, NotStarted)], s)
   = ([(taskId, Returned (fst (processTask rt out taskId s)))], snd (processTask rt out taskId s))"
  by (auto simp: step_def processTask_def processTask_try_def release_def
           split: prod.splits sum.splits)

text \<open>
  C3. If the task id is in the guard set, \<open>processTask\<close> returns at once and leaves the
  state as it is: it reads no task, verifies nothing and submits nothing. Otherwise the
  \<^verbatim>\<open>try\<close> block runs from a state that holds the id, the id is still in the guard set when
  the block is left, and it is removed then, whether the block returned or threw: the
  guard set after \<open>processTask\<close> is the one before it. One attempt resumed five times
  alone is \<open>processTask\<close>; an attempt that starts while the id is in the guard set
  returns without a call. For any number of attempts started from an empty guard set and
  resumed in any order, at any moment at most one attempt per task id is in flight, the
  guard set holds an id exactly while one attempt for it is in flight, and an attempt for
  that id that starts in the meantime returns at once.
\<close>

theorem guard_set_discipline:
  "(taskId \<in> processingTasks s \<longrightarrow> processTask rt out taskId s = (Inr (), s))
   \<and> (taskId \<notin> processingTasks s \<longrightarrow>
        (\<exists>r s1. processTask_try rt out taskId (s\<lparr>processingTasks := insert taskId (processingTasks s)\<rparr>)
                  = (r, s1)
           \<and> processingTasks s1 = insert taskId (processingTasks s)
           \<and> processTask rt out taskId s = (r, s1\<lparr>processingTasks := processingTasks s\<rparr>)))
   \<and> run rt out [0, 0, 0, 0, 0] ([(taskId, NotStarted)], s)
       = ([(taskId, Returned (fst (processTask rt out taskId s)))], snd (processTask rt out taskId s))
   \<and> (taskId \<in> processingTasks s \<longrightarrow> resume rt out taskId NotStarted s = (Returned (Inr ()), s))
   \<and> (processingTasks s0 = {} \<and> (\<forall>x\<in>set attempts. snd x = NotStarted) \<longrightarrow>
        in_flight_count taskId (fst (run rt out schedule (attempts, s0))) \<le> 1
        \<and> (taskId \<in> processingTasks (snd (run rt out schedule (attempts, s0)))
             \<longleftrightarrow> in_flight_count taskId (fst (run rt out schedule (attempts, s0))) = 1)
        \<and> (in_flight_count taskId (fst (run rt out schedule (attempts, s0))) = 1 \<longrightarrow>
             resume rt out taskId NotStarted (snd (run rt out schedule (attempts, s0)))
             = (Returned (Inr ()), snd (run rt out schedule (attempts, s0)))))"
proof (intro conjI impI)
  assume "taskId \<in> processingTasks s"
  then show "processTask rt out taskId s = (Inr (), s)"
    by (simp add: processTask_def)
next
  assume n: "taskId \<notin> processingTasks s"
  obtain r s1 where b: "processTask_try rt out taskId
      (s\<lparr>processingTasks := insert taskId (processingTasks s)\<rparr>) = (r, s1)"
    by (cases "processTask_try rt out taskId (s\<lparr>processingTasks := insert taskId (processingTasks s)\<rparr>)")
  from guard_processTask_try [OF b] have g: "processingTasks s1 = insert taskId (processingTasks s)"
    by simp
  with n b have "processTask rt out taskId s = (r, s1\<lparr>processingTasks := processingTasks s\<rparr>)"
    by (simp add: processTask_def)
  with b g show "\<exists>r s1. processTask_try rt out taskId (s\<lparr>processingTasks := insert taskId (processingTasks s)\<rparr>)
                  = (r, s1)
           \<and> processingTasks s1 = insert taskId (processingTasks s)
           \<and> processTask rt out taskId s = (r, s1\<lparr>processingTasks := processingTasks s\<rparr>)"
    by blast
next
  show "run rt out [0, 0, 0, 0, 0] ([(taskId, NotStarted)], s)
       = ([(taskId, Returned (fst (processTask rt out taskId s)))], snd (processTask rt out taskId s))"
    by (rule processTask_run)
next
  assume "taskId \<in> processingTasks s"
  then show "resume rt out taskId NotStarted s = (Returned (Inr ()), s)"
    by simp
next
  assume a: "processingTasks s0 = {} \<and> (\<forall>x\<in>set attempts. snd x = NotStarted)"
  then have "guard_ok (attempts, s0)"
    by (simp add: initial_guard_ok)
  then have "guard_ok (run rt out schedule (attempts, s0))"
    by (rule run_guard_ok)
  then have c: "in_flight_count taskId (fst (run rt out schedule (attempts, s0)))
      = (if taskId \<in> processingTasks (snd (run rt out schedule (attempts, s0))) then 1 else 0)"
    by (simp add: guard_ok_def)
  then show "in_flight_count taskId (fst (run rt out schedule (attempts, s0))) \<le> 1"
    by simp
  from c show "taskId \<in> processingTasks (snd (run rt out schedule (attempts, s0)))
             \<longleftrightarrow> in_flight_count taskId (fst (run rt out schedule (attempts, s0))) = 1"
    by simp
  assume one: "in_flight_count taskId (fst (run rt out schedule (attempts, s0))) = 1"
  have "taskId \<in> processingTasks (snd (run rt out schedule (attempts, s0)))"
  proof (rule ccontr)
    assume "taskId \<notin> processingTasks (snd (run rt out schedule (attempts, s0)))"
    then have "in_flight_count taskId (fst (run rt out schedule (attempts, s0))) = 0"
      by (simp only: c if_False)
    with one show False by simp
  qed
  then show "resume rt out taskId NotStarted (snd (run rt out schedule (attempts, s0)))
             = (Returned (Inr ()), snd (run rt out schedule (attempts, s0)))"
    by simp
qed

theorem guard_set_discipline_witness:
  "processTask (example_runtime []) (example_world (Inr ()) (Inl (Error [])) ) 1
     \<lparr>processingTasks = {1}, world = [], calls = []\<rparr>
   = (Inr (), \<lparr>processingTasks = {1}, world = [], calls = []\<rparr>)
   \<and> in_flight_count 1
        (fst (run (example_runtime []) (example_world (Inr ()) (Inl (Error []))) [0, 1, 0, 1]
                ([(1, NotStarted), (1, NotStarted)],
                 start_state [Settles 5 (Inr (example_task ASSIGNED (js ''0xAb'')))]))) \<le> 1"
proof -
  let ?rt = "example_runtime []"
  let ?out = "example_world (Inr ()) (Inl (Error []))"
  let ?held = "\<lparr>processingTasks = {1 :: nat}, world = [] :: task promise list, calls = []\<rparr>"
  let ?start = "start_state [Settles 5 (Inr (example_task ASSIGNED (js ''0xAb'')))]"
  let ?both = "[(1 :: nat, NotStarted), (1, NotStarted)]"
  have g: "1 \<in> processingTasks ?held"
    by simp
  have i: "processingTasks ?start = {} \<and> (\<forall>x\<in>set ?both. snd x = NotStarted)"
    by (simp add: start_state_def)
  from guard_set_discipline [THEN conjunct1, THEN mp, OF g]
  have 1: "processTask ?rt ?out 1 ?held = (Inr (), ?held)" .
  from guard_set_discipline [THEN conjunct2, THEN conjunct2, THEN conjunct2, THEN conjunct2, THEN mp, OF i]
  have 2: "in_flight_count 1 (fst (run ?rt ?out [0, 1, 0, 1] (?both, ?start))) \<le> 1"
    by blast
  from 1 2 show ?thesis by simp
qed

section \<open>Acquisition\<close>

text \<open>
  C6. For a task whose status is not Pending, \<open>pickUpTask\<close> makes one call, the read of
  the task, and no acquisition write: the calls after it are the calls before it followed
  by that read. It returns \<open>picked = False\<close>, with \<open>shouldProcess\<close> true exactly when the
  task is Assigned and assigned to this operator (the comparison of the addresses being
  the one of \<open>isAssignedToMe\<close>), false for every other task that is not Pending. The
  state before the call is arbitrary, so a repeated call on a task assigned to this
  operator again makes only the read.
\<close>

theorem pickUpTask_non_pending:
  "getTask out taskId s = (Inr t, s1) \<Longrightarrow> status t \<noteq> PENDING \<Longrightarrow>
   pickUpTask out me taskId s =
     (Inr \<lparr>picked = False, shouldProcess = Some (isAssignedToMe me t \<and> status t = ASSIGNED)\<rparr>, s1)
   \<and> calls s1 = calls s @ [CallGetTask taskId]"
  by (auto simp: pickUpTask_def handleNonPendingTask_def dest: calls_getTask)

theorem pickUpTask_non_pending_witness:
  "pickUpTask (example_world (Inr ()) (Inl (Error []))) (js ''0xAb'') 1
     (start_state [Settles 5 (Inr (example_task ASSIGNED (js ''0xaB'')))])
   = (Inr \<lparr>picked = False, shouldProcess = Some True\<rparr>,
      \<lparr>processingTasks = {}, world = [], calls = [CallGetTask 1]\<rparr>)"
proof -
  have g: "getTask (example_world (Inr ()) (Inl (Error []))) 1
             (start_state [Settles 5 (Inr (example_task ASSIGNED (js ''0xaB'')))])
           = (Inr (example_task ASSIGNED (js ''0xaB'')),
              \<lparr>processingTasks = {}, world = [], calls = [CallGetTask 1]\<rparr>)"
    by (simp add: ex_defs)
  have p: "status (example_task ASSIGNED (js ''0xaB'')) \<noteq> PENDING"
    by (simp add: ex_defs)
  from pickUpTask_non_pending [OF g p, of "js ''0xAb''"] show ?thesis
    by (simp add: ex_defs)
qed

text \<open>
  C5. When the task is Pending and the acquisition write fails, \<open>pickUpTask\<close> looks at the
  message of the error. If it contains one of the conflict signatures, the task is read
  again and \<open>pickUpTask\<close> returns without throwing: \<open>shouldProcess\<close> is true if the second
  read shows the task assigned to this operator, false if it shows another operator or if
  the second read fails. Any other error of the write is thrown again as it is. In both
  cases the write was issued once.
\<close>

theorem pickUpTask_conflict:
  "getTask out taskId s = (Inr t, s1) \<Longrightarrow> status t = PENDING \<Longrightarrow>
   pickTask out taskId s1 = (Inl e, s2) \<Longrightarrow> getTask out taskId s2 = (reread, s3) \<Longrightarrow>
   (is_conflict e \<longrightarrow>
      pickUpTask out me taskId s =
        (Inr \<lparr>picked = False,
              shouldProcess =
                Some (case reread of Inr t' \<Rightarrow> isAssignedToMe me t' | Inl checkError \<Rightarrow> False)\<rparr>,
         s3)
      \<and> calls s3 = calls s @ [CallGetTask taskId, CallPickTask taskId, CallGetTask taskId])
   \<and> (\<not> is_conflict e \<longrightarrow>
      pickUpTask out me taskId s = (Inl e, s2)
      \<and> calls s2 = calls s @ [CallGetTask taskId, CallPickTask taskId])"
  by (auto simp: pickUpTask_def handlePickTaskError_def conflict_check
           dest!: calls_getTask calls_pickTask split: sum.splits)

theorem pickUpTask_conflict_witness:
  "is_conflict (Error (js ''reverted: 0x48780f5a''))
   \<and> pickUpTask (example_world (Inl (Error (js ''reverted: 0x48780f5a''))) (Inl (Error []))) (js ''0xAb'') 1
       (start_state [Settles 5 (Inr (example_task PENDING (js ''0x00''))),
                     Settles 7 (Inr (example_task ASSIGNED (js ''0xaB'')))])
     = (Inr \<lparr>picked = False, shouldProcess = Some True\<rparr>,
        \<lparr>processingTasks = {}, world = [],
         calls = [CallGetTask 1, CallPickTask 1, CallGetTask 1]\<rparr>)"
proof -
  let ?e = "Error (js ''reverted: 0x48780f5a'')"
  let ?out = "example_world (Inl ?e) (Inl (Error []))"
  let ?reread = "Settles 7 (Inr (example_task ASSIGNED (js ''0xaB'')))"
  let ?read = "\<lparr>processingTasks = {}, world = [?reread], calls = [CallGetTask 1]\<rparr>"
  let ?written = "\<lparr>processingTasks = {}, world = [?reread], calls = [CallGetTask 1, CallPickTask 1]\<rparr>"
  let ?final = "\<lparr>processingTasks = {}, world = [] :: task promise list,
              calls = [CallGetTask 1, CallPickTask 1, CallGetTask 1]\<rparr>"
  have c: "is_conflict ?e"
    by (simp add: conflict_check [symmetric] TASK_ALREADY_ASSIGNED_def js_def)
  have g: "getTask ?out 1 (start_state [Settles 5 (Inr (example_task PENDING (js ''0x00''))), ?reread])
           = (Inr (example_task PENDING (js ''0x00'')), ?read)"
    by (simp add: ex_defs)
  have p: "status (example_task PENDING (js ''0x00'')) = PENDING"
    by (simp add: ex_defs)
  have w: "pickTask ?out 1 ?read = (Inl ?e, ?written)"
    by (simp add: ex_defs)
  have r: "getTask ?out 1 ?written = (Inr (example_task ASSIGNED (js ''0xaB'')), ?final)"
    by (simp add: ex_defs)
  from pickUpTask_conflict [OF g p w r, of "js ''0xAb''"] c show ?thesis
    by (simp add: ex_defs)
qed

section \<open>The deadline of the task read\<close>

text \<open>
  C8. \<open>getTask\<close> races the contract read against a timer of 10000 milliseconds. If the
  read never settles, or settles after the deadline, \<open>getTask\<close> throws the error
  \<^verbatim>\<open>Timeout getting task details\<close>; if the read is fulfilled before the deadline, its
  value is returned unchanged (and if it is rejected before the deadline, its error is
  thrown unchanged); and the promise \<open>getTask\<close> awaits always settles, so \<open>getTask\<close>
  never waits for ever.
\<close>

theorem getTask_deadline:
  "avs_getTask out taskId (world s) = (p, w) \<Longrightarrow>
   ((p = Never \<or> (\<exists>t r. p = Settles t r \<and> 10000 < t)) \<longrightarrow>
      fst (getTask out taskId s) = Inl (Error (js ''Timeout getting task details'')))
   \<and> (\<forall>t v. p = Settles t (Inr v) \<and> t < 10000 \<longrightarrow> fst (getTask out taskId s) = Inr v)
   \<and> (\<forall>t e. p = Settles t (Inl e) \<and> t < 10000 \<longrightarrow> fst (getTask out taskId s) = Inl e)
   \<and> await (getTask_promise p) \<noteq> None"
  by (cases p) (auto simp: getTask_def call_def getTask_promise_def timeoutPromise_def TASK_DETAILS_def)

theorem getTask_deadline_witness:
  "fst (getTask (example_world (Inr ()) (Inl (Error []))) 1 (start_state []))
   = Inl (Error (js ''Timeout getting task details''))"
proof -
  have "avs_getTask (example_world (Inr ()) (Inl (Error []))) 1 (world (start_state [])) = (Never, [])"
    by (simp add: ex_defs)
  from getTask_deadline [OF this] show ?thesis
    by simp
qed

section \<open>Addresses\<close>

lemma isAssignedToMe_operator_cong:
  "toLowerCase a = toLowerCase b \<Longrightarrow> isAssignedToMe a = isAssignedToMe b"
  by (rule ext) (simp add: isAssignedToMe_def)

lemma handleNonPendingTask_cong:
  assumes "toLowerCase a = toLowerCase b"
  shows "handleNonPendingTask a taskId t = handleNonPendingTask b taskId t"
  unfolding handleNonPendingTask_def isAssignedToMe_operator_cong [OF assms] ..

lemma handlePickTaskError_cong:
  assumes "toLowerCase a = toLowerCase b"
  shows "handlePickTaskError out a taskId e s = handlePickTaskError out b taskId e s"
  unfolding handlePickTaskError_def isAssignedToMe_operator_cong [OF assms] ..

lemma pickUpTask_cong:
  assumes "toLowerCase a = toLowerCase b"
  shows "pickUpTask out a taskId s = pickUpTask out b taskId s"
  unfolding pickUpTask_def handleNonPendingTask_cong [OF assms] handlePickTaskError_cong [OF assms] ..

lemma handleTaskCreated_cong:
  assumes "toLowerCase a = toLowerCase b"
  shows "handleTaskCreated rt out a taskId s = handleTaskCreated rt out b taskId s"
  unfolding handleTaskCreated_def isAssignedToMe_operator_cong [OF assms] pickUpTask_cong [OF assms] ..

text \<open>
  C10. \<open>isAssignedToMe\<close> holds exactly when the assigned operator of the task and the
  address of this operator are equal after lower-casing, and the handler of the
  TaskAssigned event goes on to process the task under the same comparison. Two strings
  are equal after lower-casing exactly when they differ only in letter case, and
  replacing an address by one that differs only in letter case changes none of the checks
  of discovery (\<open>handleTaskCreated\<close>, \<open>handleTaskAssigned\<close>), acquisition (\<open>pickUpTask\<close>,
  \<open>handleNonPendingTask\<close>) and conflict resolution (\<open>handlePickTaskError\<close>).
\<close>

theorem assigned_to_self_case_insensitive:
  "(isAssignedToMe me t \<longleftrightarrow> toLowerCase (assignedOperator t) = toLowerCase me)
   \<and> handleTaskAssigned rt out me taskId operator s =
       (if toLowerCase operator = toLowerCase me \<and> taskId \<notin> processingTasks s
        then processTask rt out taskId s else (Inr (), s))
   \<and> (toLowerCase a = toLowerCase b \<longleftrightarrow> only_case_differs a b)
   \<and> (only_case_differs a b \<longrightarrow>
        isAssignedToMe me (t\<lparr>assignedOperator := a\<rparr>) = isAssignedToMe me (t\<lparr>assignedOperator := b\<rparr>)
        \<and> isAssignedToMe a t = isAssignedToMe b t
        \<and> handleTaskAssigned rt out me taskId a s = handleTaskAssigned rt out me taskId b s
        \<and> handleTaskAssigned rt out a taskId operator s = handleTaskAssigned rt out b taskId operator s
        \<and> handleNonPendingTask a taskId t = handleNonPendingTask b taskId t
        \<and> handlePickTaskError out a taskId e s = handlePickTaskError out b taskId e s
        \<and> pickUpTask out a taskId s = pickUpTask out b taskId s
        \<and> handleTaskCreated rt out a taskId s = handleTaskCreated rt out b taskId s)"
proof -
  have cmp: "isAssignedToMe me t \<longleftrightarrow> toLowerCase (assignedOperator t) = toLowerCase me"
    by (simp add: isAssignedToMe_def)
  have ev: "handleTaskAssigned rt out me taskId operator s =
       (if toLowerCase operator = toLowerCase me \<and> taskId \<notin> processingTasks s
        then processTask rt out taskId s else (Inr (), s))"
    by (simp add: handleTaskAssigned_def)
  have inv: "isAssignedToMe me (t\<lparr>assignedOperator := a\<rparr>) = isAssignedToMe me (t\<lparr>assignedOperator := b\<rparr>)
        \<and> isAssignedToMe a t = isAssignedToMe b t
        \<and> handleTaskAssigned rt out me taskId a s = handleTaskAssigned rt out me taskId b s
        \<and> handleTaskAssigned rt out a taskId operator s = handleTaskAssigned rt out b taskId operator s
        \<and> handleNonPendingTask a taskId t = handleNonPendingTask b taskId t
        \<and> handlePickTaskError out a taskId e s = handlePickTaskError out b taskId e s
        \<and> pickUpTask out a taskId s = pickUpTask out b taskId s
        \<and> handleTaskCreated rt out a taskId s = handleTaskCreated rt out b taskId s"
    if "only_case_differs a b"
  proof -
    from that have eq: "toLowerCase a = toLowerCase b" by (simp add: toLowerCase_eq)
    then show ?thesis
      by (simp add: isAssignedToMe_def handleTaskAssigned_def handleNonPendingTask_cong [OF eq]
            handlePickTaskError_cong [OF eq] pickUpTask_cong [OF eq] handleTaskCreated_cong [OF eq])
  qed
  from cmp ev inv toLowerCase_eq show ?thesis by blast
qed

theorem assigned_to_self_case_insensitive_witness:
  "only_case_differs (js ''0xAbC'') (js ''0xabc'')
   \<and> isAssignedToMe (js ''0xAbC'') (example_task ASSIGNED (js ''0xabc''))
   \<and> isAssignedToMe (js ''0xAbC'') (example_task ASSIGNED (js ''0xaBc''))"
proof -
  have d: "only_case_differs (js ''0xabc'') (js ''0xaBc'')"
    by (simp add: only_case_differs_def js_def)
  have m: "toLowerCase (js ''0xAbC'') = toLowerCase (js ''0xabc'')"
    by (simp add: ex_defs)
  from assigned_to_self_case_insensitive
         [of "js ''0xAbC''" "example_task ASSIGNED (js ''0xabc'')" _ _ _ _ _ "js ''0xabc''" "js ''0xaBc''"]
       d m
  show ?thesis
    by (simp add: ex_defs only_case_differs_def)
qed

end
